theory Spec2Isabelle
  imports Complex_Main "HOL-Library.Monad_Syntax"
begin

section \<open>Numbers, errors and loops\<close>

text \<open>
  The program computes with NumPy double-precision values. Two kinds of number appear in
  the model.

  Where the outcome of a comparison, of a domain test or of an array length depends on
  how a result is rounded (the contact times and the ramps of \<open>eclipse\<close>, the length and
  the edges of \<open>np.arange\<close>), the model computes as IEEE 754 binary64 does: the type
  \<open>dbl\<close> of the next section, with rounding to nearest, overflow to an infinity and NaN.

  The sums, products and means that \<open>zen\<close> and \<open>bindata\<close> form over whole arrays are
  modelled on \<^typ>\<open>real option\<close>: a number, or \<^term>\<open>None\<close> for a value that is not a finite
  number; the arithmetic on the numbers is exact there. NumPy does not raise on a division
  by zero, on \<open>arccos\<close> outside \<open>[-1, 1]\<close> or on \<open>sqrt\<close> of a negative number: it warns and
  yields NaN or an infinity. Parameter vectors and the raw samples given to \<open>bindata\<close>
  are finite numbers; the arrays that \<open>bindata\<close> returns and that \<open>zen\<close> and \<open>eclipse\<close>
  take as data may hold NaN.
\<close>

type_synonym fl = "real option"

definition fdiv :: "real \<Rightarrow> real \<Rightarrow> fl" where
  "fdiv a b = (if b = 0 then None else Some (a / b))"

definition fsqrt :: "real \<Rightarrow> fl" where
  "fsqrt a = (if 0 \<le> a then Some (sqrt a) else None)"

text \<open>Python exceptions that the modelled functions can raise.\<close>

datatype error = IndexError | ValueError | RuntimeError | UnboundLocalError

text \<open>
  A Python \<open>for i in range(n): body\<close> over a mutable state: the body is run for each
  index in order, and the first exception ends the loop.
\<close>

fun for_loop :: "'i list \<Rightarrow> ('i \<Rightarrow> 's \<Rightarrow> error + 's) \<Rightarrow> 's \<Rightarrow> error + 's" where
  "for_loop [] body s = Inr s"
| "for_loop (i # is) body s =
     (case body i s of Inl e \<Rightarrow> Inl e | Inr s' \<Rightarrow> for_loop is body s')"

text \<open>Reading \<open>xs[k]\<close> for an integer \<open>k\<close>: negative indices count from the end.\<close>

definition py_get :: "'a list \<Rightarrow> int \<Rightarrow> error + 'a" where
  "py_get xs k =
     (let n = int (length xs); j = (if k < 0 then n + k else k)
      in if 0 \<le> j \<and> j < n then Inr (xs ! nat j) else Inl IndexError)"

text \<open>Python's \<open>int(v)\<close> on a float truncates towards zero.\<close>

definition py_int :: "real \<Rightarrow> int" where
  "py_int v = (if 0 \<le> v then \<lfloor>v\<rfloor> else \<lceil>v\<rceil>)"

section \<open>Double precision\<close>

text \<open>
  Rounding to the nearest integer, a tie going to the even one.
\<close>

definition round_even :: "real \<Rightarrow> int" where
  "round_even r =
     (let f = \<lfloor>r\<rfloor>; d = r - of_int f
      in if d < 1 / 2 then f else if 1 / 2 < d then f + 1 else if even f then f else f + 1)"

text \<open>
  A binary64 number has 53 significant bits and an exponent of at least \<open>-1022\<close>: near
  \<open>x\<close> the representable numbers are the multiples of \<open>2 ^ fexp x\<close>, and \<open>rd x\<close> is the
  nearest of them, a tie going to the even multiple (as long as the exponent does not
  overflow, which \<open>fin\<close> below checks). Below \<open>2 ^ -1022\<close> the spacing stays at
  \<open>2 ^ -1074\<close> (gradual underflow), so a small enough result rounds to zero.
\<close>

definition fexp :: "real \<Rightarrow> int" where
  "fexp x = max (\<lfloor>log 2 \<bar>x\<bar>\<rfloor> - 52) (- 1074)"

definition rd :: "real \<Rightarrow> real" where
  "rd x = of_int (round_even (x / 2 powi fexp x)) * 2 powi fexp x"

definition is_double :: "real \<Rightarrow> bool" where
  "is_double x \<longleftrightarrow> rd x = x \<and> \<bar>x\<bar> < 2 ^ 1024"

text \<open>
  A double-precision value: a finite number (meant to satisfy \<^const>\<open>is_double\<close>), an
  infinity or NaN. The sign of a zero is not kept. It matters only in a division by zero,
  which gives an infinity here with the sign of the numerator; in \<open>eclipse\<close> such a
  quotient ends in NaN whatever its sign, and in \<open>np.arange\<close> in an exception.
\<close>

datatype dbl = Fin real | PInf | MInf | NaN

text \<open>The double that an operation returns when its exact result is \<open>x\<close>.\<close>

definition fin :: "real \<Rightarrow> dbl" where
  "fin x = (if 2 ^ 1024 \<le> rd x then PInf else if rd x \<le> - (2 ^ 1024) then MInf else Fin (rd x))"

fun dneg :: "dbl \<Rightarrow> dbl" where
  "dneg (Fin x) = Fin (- x)"
| "dneg PInf = MInf"
| "dneg MInf = PInf"
| "dneg NaN = NaN"

fun dadd :: "dbl \<Rightarrow> dbl \<Rightarrow> dbl" where
  "dadd (Fin x) (Fin y) = fin (x + y)"
| "dadd (Fin x) PInf = PInf"
| "dadd (Fin x) MInf = MInf"
| "dadd PInf (Fin y) = PInf"
| "dadd PInf PInf = PInf"
| "dadd MInf (Fin y) = MInf"
| "dadd MInf MInf = MInf"
| "dadd a b = NaN"

definition dsub :: "dbl \<Rightarrow> dbl \<Rightarrow> dbl" where
  "dsub a b = dadd a (dneg b)"

fun dmul :: "dbl \<Rightarrow> dbl \<Rightarrow> dbl" where
  "dmul (Fin x) (Fin y) = fin (x * y)"
| "dmul (Fin x) PInf = (if x = 0 then NaN else if 0 < x then PInf else MInf)"
| "dmul (Fin x) MInf = (if x = 0 then NaN else if 0 < x then MInf else PInf)"
| "dmul PInf (Fin y) = (if y = 0 then NaN else if 0 < y then PInf else MInf)"
| "dmul MInf (Fin y) = (if y = 0 then NaN else if 0 < y then MInf else PInf)"
| "dmul PInf PInf = PInf"
| "dmul PInf MInf = MInf"
| "dmul MInf PInf = MInf"
| "dmul MInf MInf = PInf"
| "dmul a b = NaN"

fun ddiv :: "dbl \<Rightarrow> dbl \<Rightarrow> dbl" where
  "ddiv (Fin x) (Fin y) =
     (if y = 0 then (if x = 0 then NaN else if 0 < x then PInf else MInf) else fin (x / y))"
| "ddiv (Fin x) PInf = Fin 0"
| "ddiv (Fin x) MInf = Fin 0"
| "ddiv PInf (Fin y) = (if 0 \<le> y then PInf else MInf)"
| "ddiv MInf (Fin y) = (if 0 \<le> y then MInf else PInf)"
| "ddiv a b = NaN"

text \<open>
  \<open>np.sqrt\<close> is correctly rounded. \<open>np.arccos\<close> is the C library's \<open>acos\<close>, which is
  accurate to the last bit or nearly so; the model takes the correctly rounded value.
  Outside their domains both yield NaN.
\<close>

fun dsqrt :: "dbl \<Rightarrow> dbl" where
  "dsqrt (Fin x) = (if x < 0 then NaN else fin (sqrt x))"
| "dsqrt PInf = PInf"
| "dsqrt a = NaN"

fun darccos :: "dbl \<Rightarrow> dbl" where
  "darccos (Fin x) = (if - 1 \<le> x \<and> x \<le> 1 then fin (arccos x) else NaN)"
| "darccos a = NaN"

text \<open>Comparisons: every comparison with NaN is false.\<close>

fun dle :: "dbl \<Rightarrow> dbl \<Rightarrow> bool" where
  "dle (Fin x) (Fin y) = (x \<le> y)"
| "dle NaN b = False"
| "dle a NaN = False"
| "dle MInf b = True"
| "dle a PInf = True"
| "dle a b = False"

fun dlt :: "dbl \<Rightarrow> dbl \<Rightarrow> bool" where
  "dlt (Fin x) (Fin y) = (x < y)"
| "dlt NaN b = False"
| "dlt a NaN = False"
| "dlt MInf MInf = False"
| "dlt MInf b = True"
| "dlt PInf b = False"
| "dlt a PInf = True"
| "dlt a b = False"

text \<open>Between the two kinds of number: NaN and the infinities are not finite numbers.\<close>

fun dbl_of_fl :: "fl \<Rightarrow> dbl" where
  "dbl_of_fl (Some x) = Fin x"
| "dbl_of_fl None = NaN"

fun fl_of_dbl :: "dbl \<Rightarrow> fl" where
  "fl_of_dbl (Fin x) = Some x"
| "fl_of_dbl a = None"

section \<open>ParameterExpander: \<open>get_params\<close>\<close>

text \<open>
  State of the first loop: the counter \<open>j\<close> into \<open>bestP\<close> and the array \<open>allParams\<close>.
  \<open>bestP[j]\<close> and \<open>params[i]\<close> raise \<open>IndexError\<close> when read out of range.
\<close>

definition get_params_fill ::
  "real list \<Rightarrow> real list \<Rightarrow> real list \<Rightarrow> nat \<Rightarrow> nat \<times> real list \<Rightarrow> error + nat \<times> real list"
where
  "get_params_fill bestP stepsize params i st =
     (case st of (j, allParams) \<Rightarrow>
        if stepsize ! i > 0
        then (case py_get bestP (int j) of
                Inl e \<Rightarrow> Inl e
              | Inr v \<Rightarrow> Inr (j + 1, allParams[i := v]))
        else (case py_get params (int i) of
                Inl e \<Rightarrow> Inl e
              | Inr v \<Rightarrow> Inr (j, allParams[i := v])))"

text \<open>The second loop overwrites, in place, each entry whose step size is negative.\<close>

definition get_params_tie :: "real list \<Rightarrow> nat \<Rightarrow> real list \<Rightarrow> error + real list" where
  "get_params_tie stepsize i allParams =
     (if stepsize ! i < 0
      then (case py_get allParams (py_int (- stepsize ! i - 1)) of
              Inl e \<Rightarrow> Inl e
            | Inr v \<Rightarrow> Inr (allParams[i := v]))
      else Inr allParams)"

definition get_params :: "real list \<Rightarrow> real list \<Rightarrow> real list \<Rightarrow> error + real list" where
  "get_params bestP stepsize params =
     (let n = length stepsize in
      case for_loop [0..<n] (get_params_fill bestP stepsize params) (0, replicate n 0) of
        Inl e \<Rightarrow> Inl e
      | Inr (j, allParams) \<Rightarrow> for_loop [0..<n] (get_params_tie stepsize) allParams)"

section \<open>EclipseModel: \<open>eclipse\<close>\<close>

text \<open>
  Arithmetic on the array values of \<open>zen\<close>: a value that is not a finite number stays
  one.
\<close>

definition fadd :: "fl \<Rightarrow> fl \<Rightarrow> fl" where
  "fadd a b = do { u \<leftarrow> a; v \<leftarrow> b; Some (u + v) }"

definition fsub :: "fl \<Rightarrow> fl \<Rightarrow> fl" where
  "fsub a b = do { u \<leftarrow> a; v \<leftarrow> b; Some (u - v) }"

definition fmul :: "fl \<Rightarrow> fl \<Rightarrow> fl" where
  "fmul a b = do { u \<leftarrow> a; v \<leftarrow> b; Some (u * v) }"

definition fquot :: "fl \<Rightarrow> fl \<Rightarrow> fl" where
  "fquot a b = do { u \<leftarrow> a; v \<leftarrow> b; fdiv u v }"

text \<open>The sum of such terms, added from the left starting at 0.\<close>

definition fsum :: "fl list \<Rightarrow> fl" where
  "fsum vs = foldl fadd (Some 0) vs"

text \<open>
  The contact times, in double precision:
  \<^verbatim>\<open>
  t1 = midpt - width/2
  if t1 + t12 < midpt: t2 = t1+t12
  else: t2 = midpt
  t4 = midpt + width / 2
  if t4 - t34 > midpt: t3 = t4 - t34
  else: t3 = midpt
  \<close>
\<close>

definition contact_times :: "real \<Rightarrow> real \<Rightarrow> real \<Rightarrow> real \<Rightarrow> dbl \<times> dbl \<times> dbl \<times> dbl" where
  "contact_times midpt width t12 t34 =
     (let t1 = dsub (Fin midpt) (ddiv (Fin width) (Fin 2));
          t2 = (if dlt (dadd t1 (Fin t12)) (Fin midpt) then dadd t1 (Fin t12) else Fin midpt);
          t4 = dadd (Fin midpt) (ddiv (Fin width) (Fin 2));
          t3 = (if dlt (Fin midpt) (dsub t4 (Fin t34)) then dsub t4 (Fin t34) else Fin midpt)
      in (t1, t2, t3, t4))"

text \<open>
  \<open>p = np.sqrt(np.abs(depth)) * (depth/np.abs(depth))\<close>, for a depth that is not zero.
\<close>

definition signed_radius :: "real \<Rightarrow> dbl" where
  "signed_radius depth = dmul (dsqrt (Fin \<bar>depth\<bar>)) (ddiv (Fin depth) (Fin \<bar>depth\<bar>))"

text \<open>
  The ingress and the egress branch of \<open>eclipse\<close> evaluate the same expression in \<open>z\<close>:
  \<^verbatim>\<open>
  k0 = np.arccos((p**2 + z**2 - 1) / (2 * p * z))
  k1 = np.arccos((1 - p**2 + z**2) / (2 * z))
  y[i] = 1 - depth/np.abs(depth)/np.pi * (p**2 * k0 + k1 - np.sqrt((4 * z**2 - (1 + z**2 - p**2)**2)/4))
  \<close>
  Every operation rounds, in the order in which Python evaluates the expression. The
  arguments of \<open>arccos\<close> and \<open>sqrt\<close> are passed as computed; no test and no clamp comes
  before them. A square \<open>v**2\<close> is the rounded product of \<open>v\<close> with itself, and \<open>np.pi\<close>
  is the double nearest to \<open>\<pi>\<close>. \<open>depth\<close> is not zero here, because \<open>eclipse\<close> has returned
  before when it is.
\<close>

definition overlap_flux :: "real \<Rightarrow> dbl \<Rightarrow> dbl \<Rightarrow> dbl" where
  "overlap_flux depth p z =
     (let p2 = dmul p p;
          z2 = dmul z z;
          k0 = darccos (ddiv (dsub (dadd p2 z2) (Fin 1)) (dmul (dmul (Fin 2) p) z));
          k1 = darccos (ddiv (dadd (dsub (Fin 1) p2) z2) (dmul (Fin 2) z));
          w = dsub (dadd (Fin 1) z2) p2;
          s = dsqrt (ddiv (dsub (dmul (Fin 4) z2) (dmul w w)) (Fin 4))
      in dsub (Fin 1)
           (dmul (ddiv (ddiv (Fin depth) (Fin \<bar>depth\<bar>)) (fin pi))
                 (dsub (dadd (dmul p2 k0) k1) s)))"

text \<open>
  One iteration of the loop over the samples. A NaN sample fails every comparison, so
  its \<open>y[i]\<close> stays at 1. On the ingress
  \<open>z = -2 * p * (t[i] - t1) / t12 + 1 + p\<close>, on the egress
  \<open>z = 2 * p * (t[i] - t3) / t34 + 1 - p\<close>.
\<close>

definition eclipse_sample ::
  "real \<Rightarrow> dbl \<Rightarrow> dbl \<times> dbl \<times> dbl \<times> dbl \<Rightarrow> real \<Rightarrow> real \<Rightarrow> dbl \<Rightarrow> dbl"
where
  "eclipse_sample depth p ct t12 t34 t =
     (case ct of (t1, t2, t3, t4) \<Rightarrow>
        if dle t2 t \<and> dle t t3 then dsub (Fin 1) (Fin depth)
        else if p \<noteq> Fin 0 then
          (if dle t1 t \<and> dle t t2 then
             overlap_flux depth p
               (dadd (dadd (ddiv (dmul (dmul (Fin (- 2)) p) (dsub t t1)) (Fin t12)) (Fin 1)) p)
           else if dlt t3 t \<and> dlt t t4 then
             overlap_flux depth p
               (dsub (dadd (ddiv (dmul (dmul (Fin 2) p) (dsub t t3)) (Fin t34)) (Fin 1)) p)
           else Fin 1)
        else Fin 1)"

text \<open>
  \<open>eclipse(t, eclparams)\<close> reads \<open>eclparams[0]\<close> to \<open>eclparams[5]\<close> first (an
  \<open>IndexError\<close> when there are fewer than six), returns all ones when the depth is zero,
  and otherwise derives the contact times and fills \<open>y\<close> sample by sample. The samples
  and the returned values are array values of \<open>zen\<close>: a sample that is not a number is
  NaN, and a returned \<^term>\<open>None\<close> is a flux that is NaN (or an infinity, which only
  an overflow can produce).
\<close>

definition eclipse :: "fl list \<Rightarrow> real list \<Rightarrow> error + fl list" where
  "eclipse t eclparams =
     (if length eclparams < 6 then Inl IndexError
      else
        let midpt = eclparams ! 0;
            width = eclparams ! 1;
            depth = eclparams ! 2;
            t12 = eclparams ! 3;
            t34 = eclparams ! 4;
            flux = eclparams ! 5
        in if depth = 0 then Inr (replicate (length t) (Some 1))
           else
             let ct = contact_times midpt width t12 t34;
                 p = signed_radius depth
             in Inr (map (\<lambda>ti. fl_of_dbl (eclipse_sample depth p ct t12 t34 (dbl_of_fl ti))) t))"

section \<open>CompositeModel: \<open>zen\<close>\<close>

text \<open>
  A NumPy operand is a scalar or a one-dimensional array. \<open>a + b\<close> broadcasts: arrays of
  the same length are added entry by entry, a scalar or an array of length one is added
  to every entry, and any other pair of lengths raises \<open>ValueError\<close>. The in-place
  \<open>a += b\<close> on an array \<open>a\<close> cannot change the shape of \<open>a\<close>.
\<close>

datatype nd = Scalar fl | Array "fl list"

fun np_add :: "nd \<Rightarrow> nd \<Rightarrow> error + nd" where
  "np_add (Scalar u) (Scalar v) = Inr (Scalar (fadd u v))"
| "np_add (Scalar u) (Array vs) = Inr (Array (map (fadd u) vs))"
| "np_add (Array us) (Scalar v) = Inr (Array (map (\<lambda>u. fadd u v) us))"
| "np_add (Array us) (Array vs) =
     (if length us = length vs then Inr (Array (map2 fadd us vs))
      else if length us = 1 then Inr (Array (map (fadd (hd us)) vs))
      else if length vs = 1 then Inr (Array (map (\<lambda>u. fadd u (hd vs)) us))
      else Inl ValueError)"

fun np_iadd :: "nd \<Rightarrow> nd \<Rightarrow> error + nd" where
  "np_iadd (Array us) (Array vs) =
     (if length us = length vs then Inr (Array (map2 fadd us vs))
      else if length vs = 1 then Inr (Array (map (\<lambda>u. fadd u (hd vs)) us))
      else Inl ValueError)"
| "np_iadd a b = np_add a b"

text \<open>
  A two-dimensional array is the list of its rows, all of one length. \<open>phat[:, i]\<close> is
  column \<open>i\<close>, an \<open>IndexError\<close> when the rows are shorter.
\<close>

definition column :: "'a list list \<Rightarrow> nat \<Rightarrow> error + 'a list" where
  "column m i =
     (if list_all (\<lambda>r. i < length r) m then Inr (map (\<lambda>r. r ! i) m) else Inl IndexError)"

text \<open>The body of \<open>for i in range(npix): PLD += par[i]*phat[:,i]\<close>.\<close>

definition zen_pld :: "real list \<Rightarrow> fl list list \<Rightarrow> nat \<Rightarrow> nd \<Rightarrow> error + nd" where
  "zen_pld par phat i PLD =
     (case py_get par (int i) of
        Inl e \<Rightarrow> Inl e
      | Inr w \<Rightarrow>
          (case column phat i of
             Inl e \<Rightarrow> Inl e
           | Inr col \<Rightarrow> np_iadd PLD (Array (map (fmul (Some w)) col))))"

text \<open>
  \<open>zen(par, x, phat, npix)\<close>. The slice \<open>par[npix:-3]\<close> never raises. Once
  \<open>eclipse\<close> has returned, \<open>eclparams\<close> has at least six entries and \<open>par\<close> at least nine,
  so \<open>eclparams[-1]\<close>, \<open>par[-3]\<close>, \<open>par[-2]\<close> and \<open>par[-1]\<close> are in range. The sum is
  evaluated from the left: \<open>(PLD + flux * (eclmodel - 1)) + ramp\<close>.
\<close>

definition zen :: "real list \<Rightarrow> fl list \<Rightarrow> fl list list \<Rightarrow> nat \<Rightarrow> error + nd" where
  "zen par x phat npix =
     (let n = length par;
          eclparams = drop npix (take (n - 3) par)
      in case eclipse x eclparams of
           Inl e \<Rightarrow> Inl e
         | Inr eclmodel \<Rightarrow>
             (case for_loop [0..<npix] (zen_pld par phat) (Scalar (Some 0)) of
                Inl e \<Rightarrow> Inl e
              | Inr PLD \<Rightarrow>
                  (case np_add PLD
                          (Array (map (\<lambda>e. fmul (Some (last eclparams)) (fsub e (Some 1)))
                                    eclmodel)) of
                     Inl e \<Rightarrow> Inl e
                   | Inr s \<Rightarrow>
                       np_add s
                         (Array (map (\<lambda>xi. fadd (fadd (Some (par ! (n - 3)))
                                                      (fmul (Some (par ! (n - 2))) xi))
                                                (fmul (Some (par ! (n - 1))) (fmul xi xi)))
                                   x)))))"

section \<open>Binner: \<open>bindata\<close>\<close>

text \<open>Python's \<open>min(x)\<close> and \<open>max(x)\<close> raise \<open>ValueError\<close> on an empty sequence.\<close>

definition py_min :: "real list \<Rightarrow> error + real" where
  "py_min xs = (case xs of [] \<Rightarrow> Inl ValueError | v # vs \<Rightarrow> Inr (fold min vs v))"

definition py_max :: "real list \<Rightarrow> error + real" where
  "py_max xs = (case xs of [] \<Rightarrow> Inl ValueError | v # vs \<Rightarrow> Inr (fold max vs v))"

text \<open>
  \<open>np.arange(start, stop, step)\<close> on doubles. NumPy computes the quotient
  \<open>(stop - start) / step\<close> in double precision. When it is not a number or its ceiling is
  outside the range of array sizes, \<open>np.arange\<close> raises \<open>ValueError\<close>; that is so for a
  zero step, and when the difference or the quotient overflows. When the quotient has
  underflowed to zero from a difference that is not zero, the length is 1 for a positive
  and 0 for a negative quotient. Otherwise the length is the ceiling of the quotient, or
  0 when that is negative. An array of doubles holds fewer than \<open>2 ^ 60\<close> elements (its
  size in bytes is a signed 64-bit number); the model does not bound the memory of the
  machine any further.
\<close>

definition arange_length :: "real \<Rightarrow> real \<Rightarrow> real \<Rightarrow> error + nat" where
  "arange_length start stop step =
     (let d = dsub (Fin stop) (Fin start);
          q = ddiv d (Fin step)
      in if q = Fin 0 \<and> d \<noteq> Fin 0 then Inr (if dlt (Fin 0) d \<longleftrightarrow> 0 < step then 1 else 0)
         else (case q of
                 Fin v \<Rightarrow> if \<lceil>v\<rceil> < - (2 ^ 63) \<or> 2 ^ 60 \<le> \<lceil>v\<rceil> then Inl ValueError
                          else Inr (nat \<lceil>v\<rceil>)
               | _ \<Rightarrow> Inl ValueError))"

text \<open>
  The entries: the first is \<open>start\<close>, the second the rounded sum \<open>start + step\<close>, and
  NumPy fills in the others as \<open>start + i * delta\<close>, where \<open>delta\<close> is the rounded
  difference of the first two entries. Each product and each sum rounds, so the entries
  are not in general the multiples of \<open>step\<close> above \<open>start\<close>, and the last of them can
  lie at or above \<open>stop\<close>.
\<close>

definition np_arange :: "real \<Rightarrow> real \<Rightarrow> real \<Rightarrow> error + dbl list" where
  "np_arange start stop step =
     (case arange_length start stop step of
        Inl e \<Rightarrow> Inl e
      | Inr n \<Rightarrow>
          let next = dadd (Fin start) (Fin step);
              delta = dsub next (Fin start)
          in Inr (map (\<lambda>i. if i = 0 then Fin start
                           else if i = 1 then next
                           else dadd (Fin start) (dmul (fin (real i)) delta))
                    [0..<n]))"

text \<open>
  \<open>np.digitize(x, bins)\<close> for \<open>bins\<close> in increasing order: the index \<open>i\<close> with
  \<open>bins[i-1] <= v < bins[i]\<close>, which is the number of edges that are at most \<open>v\<close>;
  a value at or beyond the last edge gets \<open>len(bins)\<close>. The edges \<open>bindata\<close> passes come
  from \<open>np.arange\<close>: there is more than one only for a positive step, and rounding
  keeps the order of the sums \<open>start + i * delta\<close>.
\<close>

definition digitize :: "real list \<Rightarrow> dbl list \<Rightarrow> nat list" where
  "digitize x bins = map (\<lambda>v. length (filter (\<lambda>b. dle b (Fin v)) bins)) x"

text \<open>
  \<open>a[digitized == i]\<close>, indexing with a boolean array: the entries of \<open>a\<close> whose sample
  is in bin \<open>i\<close>, an \<open>IndexError\<close> when \<open>a\<close> and the boolean array differ in length.
\<close>

definition bin_members :: "nat list \<Rightarrow> nat \<Rightarrow> 'a list \<Rightarrow> 'a list" where
  "bin_members digitized i a = map snd (filter (\<lambda>dv. fst dv = i) (zip digitized a))"

definition bin_select :: "nat list \<Rightarrow> nat \<Rightarrow> 'a list \<Rightarrow> error + 'a list" where
  "bin_select digitized i a =
     (if length a = length digitized then Inr (bin_members digitized i a) else Inl IndexError)"

text \<open>\<open>a[binmask]\<close>: the entries of \<open>a\<close> whose flag is set.\<close>

definition compress :: "bool list \<Rightarrow> 'a list \<Rightarrow> 'a list" where
  "compress flags a = map snd (filter fst (zip flags a))"

text \<open>The mean of no values is \<open>0/0\<close>: NaN and a warning, not an exception.\<close>

definition np_mean :: "real list \<Rightarrow> fl" where
  "np_mean vs = fdiv (sum_list vs) (real (length vs))"

text \<open>\<open>np.sqrt(np.sum(np.array(e)**2)) / len(np.array(e))\<close>.\<close>

definition bin_yerr :: "real list \<Rightarrow> fl" where
  "bin_yerr es = do { s \<leftarrow> fsqrt (sum_list (map (\<lambda>e. e\<^sup>2) es)); fdiv s (real (length es)) }"

record bin_state =
  binmask :: "bool list"
  bin_means_x :: "fl list"
  bin_means_y :: "fl list"
  bin_means_yerr :: "fl list option"

text \<open>
  The body of \<open>for i in range(1, len(bins) + 1)\<close>. \<open>bin_means_yerr\<close> exists only when
  \<open>yerr\<close> was given.
\<close>

definition bindata_body ::
  "real list \<Rightarrow> real list \<Rightarrow> real list option \<Rightarrow> nat list \<Rightarrow> nat \<Rightarrow> bin_state \<Rightarrow> error + bin_state"
where
  "bindata_body x y yerr digitized i st =
     (case bin_select digitized i y of
        Inl e \<Rightarrow> Inl e
      | Inr ys \<Rightarrow>
          let st1 = st\<lparr>bin_means_y := (bin_means_y st)[i - 1 := np_mean ys]\<rparr>;
              st2 = (if length ys = 0 then st1\<lparr>binmask := (binmask st1)[i - 1 := False]\<rparr>
                     else st1)
          in (case bin_select digitized i x of
                Inl e \<Rightarrow> Inl e
              | Inr xs \<Rightarrow>
                  let st3 = st2\<lparr>bin_means_x := (bin_means_x st2)[i - 1 := np_mean xs]\<rparr>;
                      st4 = (if length xs = 0
                             then st3\<lparr>binmask := (binmask st3)[i - 1 := False]\<rparr>
                             else st3)
                  in (case yerr of
                        None \<Rightarrow> Inr st4
                      | Some ye \<Rightarrow>
                          (case bin_select digitized i ye of
                             Inl e \<Rightarrow> Inl e
                           | Inr es \<Rightarrow>
                               Inr (st4\<lparr>bin_means_yerr :=
                                          map_option (\<lambda>a. a[i - 1 := bin_yerr es])
                                            (bin_means_yerr st4)\<rparr>)))))"

text \<open>
  \<open>bindata(x, y, width, yerr=None)\<close> returns the two or three masked arrays.
\<close>

definition bindata ::
  "real list \<Rightarrow> real list \<Rightarrow> real \<Rightarrow> real list option
     \<Rightarrow> error + fl list \<times> fl list \<times> fl list option"
where
  "bindata x y width yerr =
     (case py_min x of
        Inl e \<Rightarrow> Inl e
      | Inr lo \<Rightarrow>
          (case py_max x of
             Inl e \<Rightarrow> Inl e
           | Inr hi \<Rightarrow>
               (case np_arange lo hi width of
                  Inl e \<Rightarrow> Inl e
                | Inr bins \<Rightarrow>
                    let n = length bins;
                        digitized = digitize x bins;
                        st0 = \<lparr>binmask = replicate n True,
                               bin_means_x = replicate n (Some 0),
                               bin_means_y = replicate n (Some 0),
                               bin_means_yerr = map_option (\<lambda>_. replicate n (Some 0)) yerr\<rparr>
                    in (case for_loop [1..<n + 1] (bindata_body x y yerr digitized) st0 of
                          Inl e \<Rightarrow> Inl e
                        | Inr st \<Rightarrow>
                            Inr (compress (binmask st) (bin_means_x st),
                                 compress (binmask st) (bin_means_y st),
                                 map_option (compress (binmask st)) (bin_means_yerr st))))))"

section \<open>BinWidthOptimizer: the sweep in \<open>main\<close>\<close>

text \<open>
  The loop over the candidate bin widths (\<open>zen.py\<close>, the \<open>for i in range(len(bintry))\<close>
  block). Its inputs are values \<open>main\<close> has computed before: the phases, pixel fluxes,
  photometry and uncertainties of the good frames, the initial parameters, the number of
  pixels (\<open>main\<close> sets 9) and the candidate widths in phase units. The solver
  \<open>scipy.optimize.curve_fit\<close> is not part of the program: it is the parameter \<open>curve_fit\<close>,
  which maps \<open>xphat\<close>, the normalised binned photometry, the initial parameters and the
  normalised uncertainties to the fitted parameters \<open>ret[0]\<close> or to the exception it
  raises (\<open>RuntimeError\<close> when the fit does not converge). The model function it is given
  is always \<open>zen_optimize\<close>. Printing is left out, and so are \<open>photnorm\<close> and
  \<open>photerrnorm\<close>, which the loop computes and never reads. In this section \<open>None\<close> stands
  for any value that is not a finite number.
\<close>

text \<open>Elementwise operations with broadcasting, \<open>np.sum\<close> and \<open>np.mean\<close>.\<close>

fun np_binop :: "(fl \<Rightarrow> fl \<Rightarrow> fl) \<Rightarrow> nd \<Rightarrow> nd \<Rightarrow> error + nd" where
  "np_binop f (Scalar u) (Scalar v) = Inr (Scalar (f u v))"
| "np_binop f (Scalar u) (Array vs) = Inr (Array (map (f u) vs))"
| "np_binop f (Array us) (Scalar v) = Inr (Array (map (\<lambda>u. f u v) us))"
| "np_binop f (Array us) (Array vs) =
     (if length us = length vs then Inr (Array (map2 f us vs))
      else if length us = 1 then Inr (Array (map (f (hd us)) vs))
      else if length vs = 1 then Inr (Array (map (\<lambda>u. f u (hd vs)) us))
      else Inl ValueError)"

fun np_square :: "nd \<Rightarrow> nd" where
  "np_square (Scalar u) = Scalar (fmul u u)"
| "np_square (Array us) = Array (map (\<lambda>u. fmul u u) us)"

fun np_sum :: "nd \<Rightarrow> fl" where
  "np_sum (Scalar u) = u"
| "np_sum (Array us) = fsum us"

definition fl_mean :: "fl list \<Rightarrow> fl" where
  "fl_mean vs = fquot (fsum vs) (Some (real (length vs)))"

text \<open>
  \<open>binphat\<close> while the columns are binned: not yet assigned, the one-dimensional array of
  the first column, or the two-dimensional array (a list of rows) that
  \<open>np.column_stack\<close> builds. Stacking arrays of different lengths raises \<open>ValueError\<close>.
\<close>

datatype stacked = Unbound | Vec "fl list" | Mat "fl list list"

definition column_stack :: "stacked \<Rightarrow> fl list \<Rightarrow> error + stacked" where
  "column_stack b t =
     (case b of
        Unbound \<Rightarrow> Inl UnboundLocalError
      | Vec v \<Rightarrow>
          if length v = length t then Inr (Mat (map2 (\<lambda>a c. [a, c]) v t)) else Inl ValueError
      | Mat m \<Rightarrow>
          if length m = length t then Inr (Mat (map2 (\<lambda>r c. r @ [c]) m t)) else Inl ValueError)"

text \<open>
  The body of \<open>for j in range(npix)\<close>. \<open>bindata\<close> without \<open>yerr\<close> returns two arrays;
  unpacking three values into two names would raise \<open>ValueError\<close>.
\<close>

definition bin_pixel ::
  "real list \<Rightarrow> real list list \<Rightarrow> real \<Rightarrow> nat \<Rightarrow> fl list option \<times> stacked
     \<Rightarrow> error + fl list option \<times> stacked"
where
  "bin_pixel phasegood phatgood width j st =
     (case column phatgood j of
        Inl e \<Rightarrow> Inl e
      | Inr col \<Rightarrow>
          (case bindata phasegood col width None of
             Inl e \<Rightarrow> Inl e
           | Inr (bx, by, Some be) \<Rightarrow> Inl ValueError
           | Inr (bx, by, None) \<Rightarrow>
               if j = 0 then Inr (Some bx, Vec by)
               else (case column_stack (snd st) by of
                       Inl e \<Rightarrow> Inl e
                     | Inr m \<Rightarrow> Inr (Some bx, m))))"

record fit_input =
  binphase :: "fl list"
  binphat :: "fl list list"
  xphat :: "fl list list"
  binphotnorm :: "fl list"
  binphoterrnorm :: "fl list"

text \<open>
  What one iteration computes before it calls the solver: the binned pixel columns, the
  binned and normalised photometry, and \<open>xphat\<close>, which is \<open>binphat\<close> with \<open>binphase\<close>
  as one more column. \<open>binphat.shape[1]\<close> raises \<open>UnboundLocalError\<close> when no column was
  binned and \<open>IndexError\<close> when \<open>binphat\<close> is one-dimensional.
\<close>

definition sweep_fit_input ::
  "real list \<Rightarrow> real list list \<Rightarrow> real list \<Rightarrow> real list \<Rightarrow> nat \<Rightarrow> real \<Rightarrow> error + fit_input"
where
  "sweep_fit_input phasegood phatgood phot photerr npix width =
     (case for_loop [0..<npix] (bin_pixel phasegood phatgood width) (None, Unbound) of
        Inl e \<Rightarrow> Inl e
      | Inr (bp, bphat) \<Rightarrow>
          (case bindata phasegood phot width (Some photerr) of
             Inl e \<Rightarrow> Inl e
           | Inr (bx, binphot, None) \<Rightarrow> Inl ValueError
           | Inr (bx, binphot, Some binphoterr) \<Rightarrow>
               (case bphat of
                  Unbound \<Rightarrow> Inl UnboundLocalError
                | Vec v \<Rightarrow> Inl IndexError
                | Mat rows \<Rightarrow>
                    if length bx = length rows \<or> length bx = 1
                    then Inr \<lparr>binphase = bx,
                              binphat = rows,
                              xphat = (if length bx = length rows
                                       then map2 (\<lambda>r c. r @ [c]) rows bx
                                       else map (\<lambda>r. r @ [hd bx]) rows),
                              binphotnorm = map (\<lambda>v. fquot v (fl_mean binphot)) binphot,
                              binphoterrnorm = map (\<lambda>v. fquot v (fl_mean binphot)) binphoterr\<rparr>
                    else Inl ValueError)))"

record sweep_state =
  chibest :: real
  binbest :: "real option"
  chisqarray :: "fl list"

text \<open>
  One iteration of the sweep. There is no \<open>try\<close> around the call of the solver, or
  anywhere else in the loop: an exception leaves the loop.
\<close>

definition sweep_body ::
  "(fl list list \<Rightarrow> fl list \<Rightarrow> real list \<Rightarrow> fl list \<Rightarrow> error + real list)
     \<Rightarrow> real list \<Rightarrow> real list list \<Rightarrow> real list \<Rightarrow> real list \<Rightarrow> real list \<Rightarrow> nat \<Rightarrow> real list
     \<Rightarrow> nat \<Rightarrow> sweep_state \<Rightarrow> error + sweep_state"
where
  "sweep_body curve_fit phasegood phatgood phot photerr params npix bintry i st =
     (case sweep_fit_input phasegood phatgood phot photerr npix (bintry ! i) of
        Inl e \<Rightarrow> Inl e
      | Inr d \<Rightarrow>
          (case curve_fit (xphat d) (binphotnorm d) params (binphoterrnorm d) of
             Inl e \<Rightarrow> Inl e
           | Inr ret \<Rightarrow>
               (case zen ret (binphase d) (binphat d) npix of
                  Inl e \<Rightarrow> Inl e
                | Inr model \<Rightarrow>
                    (case np_binop fsub (Array (binphotnorm d)) model of
                       Inl e \<Rightarrow> Inl e
                     | Inr resid \<Rightarrow>
                         (case np_binop fquot (np_square resid)
                                 (np_square (Array (binphoterrnorm d))) of
                            Inl e \<Rightarrow> Inl e
                          | Inr terms \<Rightarrow>
                              let redchisq = fquot (np_sum terms)
                                               (Some (real (length (binphotnorm d))));
                                  st1 = st\<lparr>chisqarray := (chisqarray st)[i := redchisq]\<rparr>
                              in (case redchisq of
                                    None \<Rightarrow> Inr st1
                                  | Some r \<Rightarrow>
                                      if r < chibest st1
                                      then Inr (st1\<lparr>chibest := r, binbest := Some (bintry ! i)\<rparr>)
                                      else Inr st1))))))"

definition sweep ::
  "(fl list list \<Rightarrow> fl list \<Rightarrow> real list \<Rightarrow> fl list \<Rightarrow> error + real list)
     \<Rightarrow> real list \<Rightarrow> real list list \<Rightarrow> real list \<Rightarrow> real list \<Rightarrow> real list \<Rightarrow> nat \<Rightarrow> real list
     \<Rightarrow> error + sweep_state"
where
  "sweep curve_fit phasegood phatgood phot photerr params npix bintry =
     for_loop [0..<length bintry]
       (sweep_body curve_fit phasegood phatgood phot photerr params npix bintry)
       \<lparr>chibest = 10 ^ 300, binbest = None, chisqarray = replicate (length bintry) (Some 0)\<rparr>"

text \<open>
  What the solver returns for one candidate width, or the exception raised before it is
  reached.
\<close>

definition fit_outcome ::
  "(fl list list \<Rightarrow> fl list \<Rightarrow> real list \<Rightarrow> fl list \<Rightarrow> error + real list)
     \<Rightarrow> real list \<Rightarrow> real list list \<Rightarrow> real list \<Rightarrow> real list \<Rightarrow> real list \<Rightarrow> nat \<Rightarrow> real
     \<Rightarrow> error + real list"
where
  "fit_outcome curve_fit phasegood phatgood phot photerr params npix width =
     (case sweep_fit_input phasegood phatgood phot photerr npix width of
        Inl e \<Rightarrow> Inl e
      | Inr d \<Rightarrow> curve_fit (xphat d) (binphotnorm d) params (binphoterrnorm d))"

text \<open>
  A solver for the examples below: it does not converge on two binned points and returns
  the initial parameters otherwise.
\<close>

definition fails_on_two_bins ::
  "fl list list \<Rightarrow> fl list \<Rightarrow> real list \<Rightarrow> fl list \<Rightarrow> error + real list"
where
  "fails_on_two_bins xp ydata p0 sigma = (if length xp = 2 then Inl RuntimeError else Inr p0)"

section \<open>Auxiliary notions\<close>

text \<open>The number of free parameters (positive step sizes) before index \<open>i\<close>.\<close>

definition npos :: "real list \<Rightarrow> nat \<Rightarrow> nat" where
  "npos stepsize i = length (filter (\<lambda>s. 0 < s) (take i stepsize))"

section \<open>Rounding\<close>

lemma round_even_of_int [simp]: "round_even (of_int n) = n"
  by (simp add: round_even_def)

lemma round_even_bounds: "\<lfloor>r\<rfloor> \<le> round_even r" "round_even r \<le> \<lfloor>r\<rfloor> + 1"
  by (simp_all add: round_even_def Let_def)

lemma round_even_mono:
  assumes "r \<le> s" shows "round_even r \<le> round_even s"
proof (cases "\<lfloor>r\<rfloor> = \<lfloor>s\<rfloor>")
  case True
  then show ?thesis using assms by (auto simp add: round_even_def Let_def)
next
  case False
  then have "\<lfloor>r\<rfloor> < \<lfloor>s\<rfloor>" using assms floor_mono [of r s] by linarith
  then show ?thesis using round_even_bounds(2) [of r] round_even_bounds(1) [of s] by linarith
qed

lemma round_even_minus: "round_even (- r) = - round_even r"
proof (cases "r \<in> \<int>")
  case True
  then obtain n where "r = of_int n" by (auto elim: Ints_cases)
  then show ?thesis by (simp flip: of_int_minus)
next
  case False
  define f where "f = \<lfloor>r\<rfloor>"
  define d where "d = r - of_int f"
  have ne: "r \<noteq> of_int f" using False unfolding f_def by (metis Ints_of_int)
  have "of_int f \<le> r" "r < of_int f + 1" unfolding f_def by linarith+
  with ne have d: "0 < d" "d < 1" by (simp_all add: d_def)
  have g: "\<lfloor>- r\<rfloor> = - f - 1"
    using d by (intro floor_unique) (simp_all add: d_def)
  have dm: "- r - of_int (- f - 1) = 1 - d" by (simp add: d_def)
  have par: "even (- f - 1) \<longleftrightarrow> odd f" by simp
  have l: "round_even (- r)
      = (if 1 - d < 1 / 2 then - f - 1 else if 1 / 2 < 1 - d then - f else if odd f then - f - 1 else - f)"
    unfolding round_even_def Let_def g dm par by simp
  have r: "round_even r = (if d < 1 / 2 then f else if 1 / 2 < d then f + 1 else if even f then f else f + 1)"
    unfolding round_even_def Let_def f_def [symmetric] d_def [symmetric] by simp
  show ?thesis unfolding l r using d by auto
qed


lemma fexp_minus [simp]: "fexp (- x) = fexp x"
  by (simp add: fexp_def)

lemma fexp_abs [simp]: "fexp \<bar>x\<bar> = fexp x"
  by (simp add: fexp_def)

lemma fexp_ge: "- 1074 \<le> fexp x"
  by (simp add: fexp_def)

lemma log2_floor_bounds:
  assumes "x \<noteq> 0"
  shows "2 powi \<lfloor>log 2 \<bar>x\<bar>\<rfloor> \<le> \<bar>x\<bar>" "\<bar>x\<bar> < 2 powi (\<lfloor>log 2 \<bar>x\<bar>\<rfloor> + 1)"
proof -
  have "0 < \<bar>x\<bar>" using assms by simp
  then have "2 powr \<lfloor>log 2 \<bar>x\<bar>\<rfloor> \<le> \<bar>x\<bar> \<and> \<bar>x\<bar> < 2 powr (\<lfloor>log 2 \<bar>x\<bar>\<rfloor> + 1)"
    using floor_log_eq_powr_iff [of "\<bar>x\<bar>" 2 "\<lfloor>log 2 \<bar>x\<bar>\<rfloor>"] by simp
  moreover have "(2 :: real) powr (\<lfloor>log 2 \<bar>x\<bar>\<rfloor> + 1) = 2 powr of_int (\<lfloor>log 2 \<bar>x\<bar>\<rfloor> + 1)"
    by simp
  ultimately show "2 powi \<lfloor>log 2 \<bar>x\<bar>\<rfloor> \<le> \<bar>x\<bar>" "\<bar>x\<bar> < 2 powi (\<lfloor>log 2 \<bar>x\<bar>\<rfloor> + 1)"
    by (simp_all only: powr_real_of_int' [of 2, simplified])
qed

lemma fexp_upper:
  assumes "x \<noteq> 0" shows "\<bar>x\<bar> < 2 powi (fexp x + 53)"
proof -
  have "\<lfloor>log 2 \<bar>x\<bar>\<rfloor> + 1 \<le> fexp x + 53" by (simp add: fexp_def)
  then have "(2 :: real) powi (\<lfloor>log 2 \<bar>x\<bar>\<rfloor> + 1) \<le> 2 powi (fexp x + 53)"
    by (intro power_int_increasing) simp_all
  with log2_floor_bounds(2) [OF assms] show ?thesis by linarith
qed

lemma fexp_lower:
  assumes "x \<noteq> 0" and "- 1074 < fexp x" shows "2 powi (fexp x + 52) \<le> \<bar>x\<bar>"
proof -
  have "fexp x = \<lfloor>log 2 \<bar>x\<bar>\<rfloor> - 52" using assms(2) by (simp add: fexp_def max_def split: if_splits)
  then have "fexp x + 52 = \<lfloor>log 2 \<bar>x\<bar>\<rfloor>" by simp
  with log2_floor_bounds(1) [OF assms(1)] show ?thesis by simp
qed

lemma fexp_le:
  assumes "\<bar>x\<bar> < 2 powi (e + 53)" and "- 1074 \<le> e" and "x \<noteq> 0"
  shows "fexp x \<le> e"
proof -
  have "2 powi \<lfloor>log 2 \<bar>x\<bar>\<rfloor> < (2 :: real) powi (e + 53)"
    using log2_floor_bounds(1) [OF assms(3)] assms(1) by linarith
  then have "\<lfloor>log 2 \<bar>x\<bar>\<rfloor> < e + 53"
    using power_int_increasing [of "e + 53" "\<lfloor>log 2 \<bar>x\<bar>\<rfloor>" "2 :: real"] by (cases "\<lfloor>log 2 \<bar>x\<bar>\<rfloor> < e + 53") simp_all
  then show ?thesis using assms(2) by (simp add: fexp_def)
qed

lemma fexp_mono:
  assumes "x \<noteq> 0" and "\<bar>x\<bar> \<le> \<bar>y\<bar>" shows "fexp x \<le> fexp y"
proof -
  have y: "y \<noteq> 0" using assms by auto
  have "\<bar>x\<bar> < 2 powi (fexp y + 53)" using fexp_upper [OF y] assms(2) by linarith
  then show ?thesis using fexp_le [OF _ fexp_ge assms(1)] by simp
qed

lemma rd_minus: "rd (- x) = - rd x"
  by (simp add: rd_def round_even_minus)

lemma rd_zero [simp]: "rd 0 = 0"
  using round_even_of_int [of 0] by (simp add: rd_def)

text \<open>A number with at most 53 significant bits and an exponent in range is not changed.\<close>

lemma rd_exact:
  assumes "\<bar>m\<bar> < 2 ^ 53" and "- 1074 \<le> e"
  shows "rd (of_int m * 2 powi e) = of_int m * 2 powi e"
proof (cases "m = 0")
  case True then show ?thesis by simp
next
  case False
  let ?x = "of_int m * 2 powi e :: real"
  have x0: "?x \<noteq> 0" using False by simp
  have "\<bar>?x\<bar> = of_int \<bar>m\<bar> * 2 powi e" by (simp add: abs_mult)
  also have "\<dots> < 2 ^ 53 * 2 powi e"
  proof -
    have "(of_int \<bar>m\<bar> :: real) < of_int (2 ^ 53)" using assms(1) by (simp only: of_int_less_iff)
    then show ?thesis by simp
  qed
  also have "\<dots> = 2 powi (e + 53)" by (simp add: power_int_add)
  finally have "fexp ?x \<le> e" using fexp_le [OF _ assms(2) x0] by simp
  define f where "f = fexp ?x"
  have "0 \<le> e - f" using \<open>fexp ?x \<le> e\<close> by (simp add: f_def)
  then obtain k where k: "e - f = int k"
    using zero_le_imp_eq_int by blast
  have pk: "2 powi e / 2 powi f = (2 :: real) ^ k"
  proof -
    have "2 powi e / 2 powi f = (2 :: real) powi (e - f)" by (simp add: power_int_diff)
    then show ?thesis by (simp only: k power_int_of_nat)
  qed
  have "?x / 2 powi f = of_int m * (2 powi e / 2 powi f)" by simp
  also have "\<dots> = of_int (m * 2 ^ k)" by (simp only: pk) simp
  finally have q: "?x / 2 powi f = of_int (m * 2 ^ k)" .
  have "rd ?x = of_int (m * 2 ^ k) * 2 powi f"
    unfolding rd_def f_def [symmetric] q round_even_of_int ..
  also have "\<dots> = of_int m * (2 powi e / 2 powi f * 2 powi f)" by (simp only: pk) simp
  also have "2 powi e / 2 powi f * 2 powi f = (2 :: real) powi e" by simp
  finally show ?thesis .
qed


lemma pow2_quot:
  assumes "f \<le> k" shows "(2 :: real) powi k / 2 powi f = of_int (2 ^ nat (k - f))"
proof -
  have "(2 :: real) powi k / 2 powi f = 2 powi (k - f)" by (simp add: power_int_diff)
  also have "\<dots> = 2 ^ nat (k - f)" using assms by (simp add: power_int_nonneg_exp)
  finally show ?thesis by simp
qed

lemma rd_le_pow2:
  assumes "x \<le> 2 powi k" and "fexp x \<le> k" shows "rd x \<le> 2 powi k"
proof -
  have "x / 2 powi fexp x \<le> 2 powi k / 2 powi fexp x"
    using assms(1) by (simp add: divide_right_mono)
  then have "round_even (x / 2 powi fexp x) \<le> 2 ^ nat (k - fexp x)"
    using round_even_mono [of "x / 2 powi fexp x" "of_int (2 ^ nat (k - fexp x))"]
    by (simp only: pow2_quot [OF assms(2)] round_even_of_int)
  then have "(of_int (round_even (x / 2 powi fexp x)) :: real) \<le> of_int (2 ^ nat (k - fexp x))"
    by (simp only: of_int_le_iff)
  then have "rd x \<le> of_int (2 ^ nat (k - fexp x)) * 2 powi fexp x"
    unfolding rd_def by (intro mult_right_mono) simp_all
  also have "\<dots> = 2 powi k / 2 powi fexp x * 2 powi fexp x"
    by (simp only: pow2_quot [OF assms(2)])
  also have "\<dots> = 2 powi k" by simp
  finally show ?thesis .
qed

lemma rd_ge_pow2:
  assumes "2 powi k \<le> x" and "fexp x \<le> k" shows "2 powi k \<le> rd x"
proof -
  have "2 powi k / 2 powi fexp x \<le> x / 2 powi fexp x"
    using assms(1) by (simp add: divide_right_mono)
  then have "2 ^ nat (k - fexp x) \<le> round_even (x / 2 powi fexp x)"
    using round_even_mono [of "of_int (2 ^ nat (k - fexp x))" "x / 2 powi fexp x"]
    by (simp only: pow2_quot [OF assms(2)] round_even_of_int)
  then have "(of_int (2 ^ nat (k - fexp x)) :: real) \<le> of_int (round_even (x / 2 powi fexp x))"
    by (simp only: of_int_le_iff)
  then have "of_int (2 ^ nat (k - fexp x)) * 2 powi fexp x \<le> rd x"
    unfolding rd_def by (intro mult_right_mono) simp_all
  moreover have "of_int (2 ^ nat (k - fexp x)) * 2 powi fexp x = (2 :: real) powi k / 2 powi fexp x * 2 powi fexp x"
    by (simp only: pow2_quot [OF assms(2)])
  moreover have "2 powi k / 2 powi fexp x * 2 powi fexp x = (2 :: real) powi k" by simp
  ultimately show ?thesis by simp
qed

lemma rd_nonneg: assumes "0 \<le> x" shows "0 \<le> rd x"
proof -
  have "0 \<le> x / 2 powi fexp x" using assms by simp
  then have "0 \<le> round_even (x / 2 powi fexp x)"
    using round_even_mono [of "of_int 0" "x / 2 powi fexp x"] by (simp only: round_even_of_int)
  then show ?thesis by (simp add: rd_def)
qed

lemma rd_mono_pos:
  assumes "0 < x" and "x \<le> y" shows "rd x \<le> rd y"
proof -
  have x0: "x \<noteq> 0" and y0: "y \<noteq> 0" using assms by auto
  have le: "fexp x \<le> fexp y" using assms by (intro fexp_mono) simp_all
  show ?thesis
  proof (cases "fexp x = fexp y")
    case True
    have "x / 2 powi fexp y \<le> y / 2 powi fexp y" using assms(2) by (simp add: divide_right_mono)
    then have "round_even (x / 2 powi fexp y) \<le> round_even (y / 2 powi fexp y)"
      by (rule round_even_mono)
    then have "(of_int (round_even (x / 2 powi fexp y)) :: real) \<le> of_int (round_even (y / 2 powi fexp y))"
      by (simp only: of_int_le_iff)
    then show ?thesis unfolding rd_def True by (intro mult_right_mono) simp_all
  next
    case False
    then have lt: "fexp x < fexp y" using le by simp
    then have "- 1074 < fexp y" using fexp_ge [of x] by linarith
    then have b: "2 powi (fexp y + 52) \<le> y" using fexp_lower [OF y0] assms by simp
    have "x < 2 powi (fexp x + 53)" using fexp_upper [OF x0] assms(1) by simp
    also have "\<dots> \<le> 2 powi (fexp y + 52)" using lt by (intro power_int_increasing) simp_all
    finally have a: "x \<le> 2 powi (fexp y + 52)" by simp
    have "rd x \<le> 2 powi (fexp y + 52)" using lt by (intro rd_le_pow2 a) simp
    also have "\<dots> \<le> rd y" by (intro rd_ge_pow2 b) simp
    finally show ?thesis .
  qed
qed

lemma rd_mono: assumes "x \<le> y" shows "rd x \<le> rd y"
proof -
  consider "0 < x" | "x \<le> 0" "0 \<le> y" | "y < 0" by linarith
  then show ?thesis
  proof cases
    case 1 then show ?thesis using assms by (rule rd_mono_pos)
  next
    case 2
    have "rd x \<le> 0" using rd_nonneg [of "- x"] 2(1) by (simp add: rd_minus)
    moreover have "0 \<le> rd y" using 2(2) by (rule rd_nonneg)
    ultimately show ?thesis by simp
  next
    case 3
    have "rd (- y) \<le> rd (- x)" using 3 assms by (intro rd_mono_pos) simp_all
    then show ?thesis by (simp add: rd_minus)
  qed
qed


lemma rd_small:
  assumes "x * 2 ^ 30 \<in> \<int>" and "\<bar>x\<bar> < 2 ^ 23"
  shows "rd x = x"
proof -
  from assms(1) obtain m where m: "x * 2 ^ 30 = of_int m" by (auto elim: Ints_cases)
  have x: "x = of_int m * 2 powi (- 30)"
  proof -
    have "x = x * 2 ^ 30 / 2 ^ 30" by simp
    also have "\<dots> = of_int m / 2 ^ 30" by (simp only: m)
    finally show ?thesis by (simp add: power_int_minus_divide)
  qed
  have "\<bar>of_int m :: real\<bar> = \<bar>x\<bar> * 2 ^ 30" by (simp add: m [symmetric] abs_mult)
  also have "\<dots> < 2 ^ 23 * 2 ^ 30" using assms(2) by (intro mult_strict_right_mono) simp_all
  finally have "\<bar>of_int m :: real\<bar> < of_int (2 ^ 53)" by simp
  then have "(of_int \<bar>m\<bar> :: real) < of_int (2 ^ 53)" by simp
  then have "\<bar>m\<bar> < 2 ^ 53" by (simp only: of_int_less_iff)
  then have "rd (of_int m * 2 powi (- 30)) = of_int m * 2 powi (- 30)" by (rule rd_exact) linarith
  then show ?thesis by (simp only: x [symmetric])
qed

lemma fin_small:
  assumes "x * 2 ^ 30 \<in> \<int>" and "\<bar>x\<bar> < 2 ^ 23"
  shows "fin x = Fin x"
proof -
  have "\<bar>x\<bar> < 2 ^ 1024"
  proof -
    have "(2 :: real) ^ 23 \<le> 2 ^ 1024" by (intro power_increasing) simp_all
    with assms(2) show ?thesis by linarith
  qed
  then show ?thesis by (simp add: fin_def rd_small [OF assms] abs_less_iff)
qed

lemma is_double_small:
  assumes "x * 2 ^ 30 \<in> \<int>" and "\<bar>x\<bar> < 2 ^ 23"
  shows "is_double x"
proof -
  have "(2 :: real) ^ 23 \<le> 2 ^ 1024" by (intro power_increasing) simp_all
  with assms(2) have "\<bar>x\<bar> < 2 ^ 1024" by linarith
  then show ?thesis by (simp add: is_double_def rd_small [OF assms])
qed

text \<open>Every double is a multiple of \<open>2 ^ -1074\<close>, so two different doubles are that far apart.\<close>

lemma rd_multiple: "\<exists>k :: int. rd x = of_int k * 2 powi (- 1074)"
proof -
  define u :: real where "u = 2 powi (- 1074)"
  have "0 \<le> fexp x + 1074" using fexp_ge [of x] by linarith
  then obtain j where j: "fexp x + 1074 = int j" using zero_le_imp_eq_int by blast
  have "(2 :: real) powi (fexp x + 1074 + (- 1074)) = 2 powi (fexp x + 1074) * u"
    unfolding u_def by (rule power_int_add) simp
  moreover have "fexp x + 1074 + (- 1074) = fexp x" by linarith
  ultimately have "(2 :: real) powi fexp x = 2 powi (fexp x + 1074) * u" by (simp only:)
  also have "\<dots> = 2 ^ j * u" by (simp only: j power_int_of_nat)
  finally have "rd x = of_int (round_even (x / 2 powi fexp x)) * (2 ^ j * u)"
    unfolding rd_def by (simp only:)
  also have "\<dots> = of_int (round_even (x / 2 powi fexp x) * 2 ^ j) * u" by simp
  finally show ?thesis unfolding u_def by blast
qed

lemma rd_min_subnormal: "rd (2 powi (- 1074)) = 2 powi (- 1074)"
proof -
  have "rd (of_int 1 * 2 powi (- 1074)) = of_int 1 * 2 powi (- 1074)"
    by (rule rd_exact) simp_all
  then show ?thesis by (simp only: of_int_1 mult_1)
qed

lemma double_gap:
  assumes "is_double a" and "is_double b" and "a < b"
  shows "2 powi (- 1074) \<le> b - a"
proof -
  define u :: real where "u = 2 powi (- 1074)"
  have u: "0 < u" unfolding u_def by (rule zero_less_power_int) simp
  obtain ka where ka: "rd a = of_int ka * u" using rd_multiple unfolding u_def by blast
  obtain kb where kb: "rd b = of_int kb * u" using rd_multiple unfolding u_def by blast
  have a: "a = of_int ka * u" and b: "b = of_int kb * u"
    using assms(1,2) ka kb by (simp_all only: is_double_def)
  have "(of_int ka :: real) * u < of_int kb * u"
    using assms(3) by (simp only: a b)
  then have "(of_int ka :: real) < of_int kb" using u by (simp only: mult_less_cancel_right_pos)
  then have "ka < kb" by (simp only: of_int_less_iff)
  then have "ka + 1 \<le> kb" by linarith
  then have "(of_int (ka + 1) :: real) \<le> of_int kb" by (simp only: of_int_le_iff)
  then have "(of_int (ka + 1) :: real) * u \<le> of_int kb * u"
    using u by (intro mult_right_mono) simp_all
  then have "u \<le> b - a" unfolding a b by (simp add: algebra_simps)
  then show ?thesis unfolding u_def .
qed

lemma rd_difference_pos:
  assumes "is_double a" and "is_double b" and "a < b"
  shows "0 < rd (b - a)"
proof -
  have "rd (2 powi (- 1074)) \<le> rd (b - a)" using double_gap [OF assms] by (rule rd_mono)
  then have "2 powi (- 1074) \<le> rd (b - a)" by (simp only: rd_min_subnormal)
  moreover have "(0 :: real) < 2 powi (- 1074)" by (rule zero_less_power_int) simp
  ultimately show ?thesis by (rule less_le_trans [rotated])
qed


lemma rd_abs_le_pow2:
  assumes "\<bar>x\<bar> \<le> 2 powi k" and "- 1074 \<le> k"
  shows "\<bar>rd x\<bar> \<le> 2 powi k"
proof -
  have pos: "rd y \<le> 2 powi k" if "0 \<le> y" "y \<le> 2 powi k" for y
  proof (cases "y = 0")
    case True then show ?thesis by simp
  next
    case False
    have "(2 :: real) powi k \<le> 2 powi (k + 53)" by (intro power_int_increasing) simp_all
    moreover have "(2 :: real) powi k \<noteq> 2 powi (k + 53)"
      using power_int_strict_increasing [of k "k + 53" "2 :: real"] by simp
    ultimately have "\<bar>y\<bar> < 2 powi (k + 53)" using that by linarith
    then have "fexp y \<le> k" using assms(2) False by (intro fexp_le)
    then show ?thesis using that(2) by (intro rd_le_pow2)
  qed
  show ?thesis
  proof (cases "0 \<le> x")
    case True
    then have "rd x \<le> 2 powi k" using assms(1) by (intro pos) simp_all
    moreover have "0 \<le> rd x" using True by (rule rd_nonneg)
    ultimately show ?thesis by simp
  next
    case False
    then have "rd (- x) \<le> 2 powi k" using assms(1) by (intro pos) simp_all
    moreover have "0 \<le> rd (- x)" using False by (intro rd_nonneg) simp
    ultimately show ?thesis by (simp add: rd_minus)
  qed
qed

lemma fin_bounded:
  assumes "\<bar>x\<bar> \<le> 2 ^ k" and "k \<le> 1023"
  shows "fin x = Fin (rd x)" and "\<bar>rd x\<bar> \<le> 2 ^ k"
proof -
  have "\<bar>rd x\<bar> \<le> 2 powi int k" using assms(1) by (intro rd_abs_le_pow2) simp_all
  then show b: "\<bar>rd x\<bar> \<le> 2 ^ k" by simp
  have "(2 :: real) ^ k < 2 ^ 1024" using assms(2) by (intro power_strict_increasing) simp_all
  with b have "\<bar>rd x\<bar> < 2 ^ 1024" by linarith
  then show "fin x = Fin (rd x)" by (simp add: fin_def abs_less_iff)
qed

lemma dadd_NaN [simp]: "dadd a NaN = NaN" "dadd NaN a = NaN"
  by (cases a; simp)+

lemma dneg_NaN_iff [simp]: "dneg a = NaN \<longleftrightarrow> a = NaN"
  by (cases a) simp_all

lemma dsub_NaN [simp]: "dsub a NaN = NaN" "dsub NaN a = NaN"
  by (simp_all add: dsub_def)

lemma dmul_NaN [simp]: "dmul a NaN = NaN" "dmul NaN a = NaN"
  by (cases a; simp)+

lemma ddiv_NaN [simp]: "ddiv a NaN = NaN" "ddiv NaN a = NaN"
  by (cases a; simp)+


text \<open>More exact results, and the rounding of a result that is not exact.\<close>

lemma rd_scaled:
  assumes "x * 2 ^ k \<in> \<int>" and "\<bar>x\<bar> * 2 ^ k < 2 ^ 53" and "k \<le> 1074"
  shows "rd x = x"
proof -
  from assms(1) obtain m where m: "x * 2 ^ k = of_int m" by (auto elim: Ints_cases)
  have x: "x = of_int m * 2 powi (- int k)"
  proof -
    have "x = x * 2 ^ k / 2 ^ k" by simp
    also have "\<dots> = of_int m / 2 ^ k" by (simp only: m)
    finally show ?thesis by (simp add: power_int_minus_divide)
  qed
  have "\<bar>of_int m :: real\<bar> = \<bar>x\<bar> * 2 ^ k" by (simp add: m [symmetric] abs_mult)
  also have "\<dots> < of_int (2 ^ 53)" using assms(2) by simp
  finally have "(of_int \<bar>m\<bar> :: real) < of_int (2 ^ 53)" by simp
  then have "\<bar>m\<bar> < 2 ^ 53" by (simp only: of_int_less_iff)
  moreover have "- 1074 \<le> - int k" using assms(3) by linarith
  ultimately have "rd (of_int m * 2 powi (- int k)) = of_int m * 2 powi (- int k)"
    by (rule rd_exact)
  then show ?thesis by (simp only: x [symmetric])
qed

lemma fexp_eq:
  assumes "2 powi (e + 52) \<le> \<bar>x\<bar>" and "\<bar>x\<bar> < 2 powi (e + 53)" and "- 1074 \<le> e"
  shows "fexp x = e"
proof -
  have "(0 :: real) < 2 powi (e + 52)" by (rule zero_less_power_int) simp
  then have "0 < \<bar>x\<bar>" using assms(1) by linarith
  then have x0: "x \<noteq> 0" by simp
  have le: "fexp x \<le> e" using assms(2,3) x0 by (rule fexp_le)
  have "2 powi (e + 52) < (2 :: real) powi (\<lfloor>log 2 \<bar>x\<bar>\<rfloor> + 1)"
    using assms(1) log2_floor_bounds(2) [OF x0] by linarith
  then have "e + 52 < \<lfloor>log 2 \<bar>x\<bar>\<rfloor> + 1"
    using power_int_increasing [of "\<lfloor>log 2 \<bar>x\<bar>\<rfloor> + 1" "e + 52" "2 :: real"]
    by (cases "e + 52 < \<lfloor>log 2 \<bar>x\<bar>\<rfloor> + 1") simp_all
  then have "e \<le> fexp x" by (simp add: fexp_def)
  with le show ?thesis by simp
qed

lemma round_even_nearest:
  assumes "\<bar>r - of_int m\<bar> < 1 / 2" shows "round_even r = m"
proof (cases "of_int m \<le> r")
  case True
  then have "\<lfloor>r\<rfloor> = m" using assms by (intro floor_unique) simp_all
  then show ?thesis using assms True by (simp add: round_even_def)
next
  case False
  then have f: "\<lfloor>r\<rfloor> = m - 1" using assms by (intro floor_unique) simp_all
  have "1 / 2 < r - of_int (m - 1)" using assms False by simp
  then show ?thesis unfolding round_even_def Let_def f by simp
qed

lemma rd_nearest:
  assumes "2 powi (e + 52) \<le> \<bar>x\<bar>" and "\<bar>x\<bar> < 2 powi (e + 53)" and "- 1074 \<le> e"
    and "\<bar>x / 2 powi e - of_int m\<bar> < 1 / 2"
  shows "rd x = of_int m * 2 powi e"
  unfolding rd_def fexp_eq [OF assms(1-3)] round_even_nearest [OF assms(4)] ..

section \<open>EclipseModel\<close>

lemma eclipse_returns:
  "6 \<le> length eclparams \<Longrightarrow> \<exists>ecl. eclipse x eclparams = Inr ecl \<and> length ecl = length x"
  by (simp add: eclipse_def Let_def)


text \<open>
  Claim C5. With a depth of zero \<open>eclipse\<close> returns a sequence of ones as long as \<open>t\<close>,
  whatever the other five parameters and the samples are. The result holds no NaN, so no
  division by the depth has been evaluated.
\<close>

theorem eclipse_zero_depth:
  "eclipse t [midpt, width, 0, t12, t34, flux] = Inr (replicate (length t) (Some 1))"
  by (simp add: eclipse_def)








section \<open>Loops\<close>

lemma for_loop_append:
  "for_loop (xs @ ys) body s =
     (case for_loop xs body s of Inl e \<Rightarrow> Inl e | Inr s' \<Rightarrow> for_loop ys body s')"
  by (induction xs arbitrary: s) (auto split: sum.splits)

lemma for_loop_invariant:
  assumes "a \<le> b" and "P a s"
    and "\<And>i s. a \<le> i \<Longrightarrow> i < b \<Longrightarrow> P i s \<Longrightarrow> \<exists>s'. body i s = Inr s' \<and> P (Suc i) s'"
  shows "\<exists>s'. for_loop [a..<b] body s = Inr s' \<and> P b s'"
  using assms(1,3)
proof (induction b)
  case 0
  with assms(2) show ?case by simp
next
  case (Suc b)
  show ?case
  proof (cases "a \<le> b")
    case True
    have "\<exists>s'. for_loop [a..<b] body s = Inr s' \<and> P b s'"
      using Suc.IH [OF True] Suc.prems(2) by (metis less_Suc_eq)
    then obtain s1 where s1: "for_loop [a..<b] body s = Inr s1" "P b s1" by blast
    obtain s2 where s2: "body b s1 = Inr s2" "P (Suc b) s2"
      using Suc.prems(2) [OF True _ s1(2)] by auto
    have "[a..<Suc b] = [a..<b] @ [b]" using True by simp
    then show ?thesis using s1 s2 by (simp add: for_loop_append)
  next
    case False
    then have "a = Suc b" using Suc.prems(1) by simp
    then show ?thesis using assms(2) by simp
  qed
qed

section \<open>ParameterExpander\<close>

lemma py_get_nat: "py_get xs (int j) = (if j < length xs then Inr (xs ! j) else Inl IndexError)"
  by (simp add: py_get_def)

lemma py_int_tie: "s < 0 \<Longrightarrow> 0 \<le> py_int (- s - 1)"
  by (simp add: py_int_def)


lemma npos_Suc: "i < length stepsize \<Longrightarrow>
  npos stepsize (Suc i) = (if 0 < stepsize ! i then Suc (npos stepsize i) else npos stepsize i)"
  by (simp add: npos_def take_Suc_conv_app_nth)

lemma npos_mono: "i \<le> k \<Longrightarrow> npos stepsize i \<le> npos stepsize k"
proof (induction k)
  case 0 then show ?case by simp
next
  case (Suc k)
  show ?case
  proof (cases "i = Suc k")
    case True then show ?thesis by simp
  next
    case False
    then have le: "npos stepsize i \<le> npos stepsize k" using Suc by simp
    show ?thesis
    proof (cases "k < length stepsize")
      case True then show ?thesis using le by (simp add: npos_Suc)
    next
      case False then show ?thesis using le by (simp add: npos_def)
    qed
  qed
qed

lemma npos_lt_total:
  assumes "i < length stepsize" "0 < stepsize ! i"
  shows "npos stepsize i < length (filter (\<lambda>s. 0 < s) stepsize)"
proof -
  have "Suc (npos stepsize i) = npos stepsize (Suc i)" using assms by (simp add: npos_Suc)
  also have "\<dots> \<le> npos stepsize (length stepsize)" using assms(1) by (intro npos_mono) simp
  also have "\<dots> = length (filter (\<lambda>s. 0 < s) stepsize)" by (simp add: npos_def)
  finally show ?thesis by simp
qed

lemma get_params_first_loop:
  assumes "length params = length stepsize"
    and "length (filter (\<lambda>s. 0 < s) stepsize) \<le> length bestP"
  shows "\<exists>j A. for_loop [0..<length stepsize] (get_params_fill bestP stepsize params)
                  (0, replicate (length stepsize) 0) = Inr (j, A)
           \<and> length A = length stepsize
           \<and> (\<forall>k<length stepsize. A ! k = (if 0 < stepsize ! k then bestP ! npos stepsize k else params ! k))"
proof -
  let ?n = "length stepsize"
  let ?P = "\<lambda>i st. fst st = npos stepsize i \<and> length (snd st) = ?n
              \<and> (\<forall>k<i. snd st ! k = (if 0 < stepsize ! k then bestP ! npos stepsize k else params ! k))"
  have "\<exists>s'. for_loop [0..<?n] (get_params_fill bestP stepsize params) (0, replicate ?n 0) = Inr s' \<and> ?P ?n s'"
  proof (rule for_loop_invariant [where P = ?P])
    show "0 \<le> ?n" by simp
    show "?P 0 (0, replicate ?n 0)" by (simp add: npos_def)
  next
    fix i st assume i: "0 \<le> i" "i < ?n" and P: "?P i st"
    obtain j A where st: "st = (j, A)" by (cases st)
    show "\<exists>s'. get_params_fill bestP stepsize params i st = Inr s' \<and> ?P (Suc i) s'"
    proof (cases "0 < stepsize ! i")
      case True
      then have "j < length bestP" using npos_lt_total [OF i(2) True] P st assms(2) by simp
      then show ?thesis using True P st i
        by (auto simp: get_params_fill_def py_get_nat npos_Suc nth_list_update less_Suc_eq)
    next
      case False
      then show ?thesis using P st i assms(1)
        by (auto simp: get_params_fill_def py_get_nat npos_Suc nth_list_update less_Suc_eq)
    qed
  qed
  then show ?thesis by (metis prod.collapse)
qed

lemma get_params_second_loop:
  assumes "length A = length stepsize"
    and "\<forall>i<length stepsize. stepsize ! i < 0 \<longrightarrow>
           nat (py_int (- stepsize ! i - 1)) < length stepsize
         \<and> 0 \<le> stepsize ! nat (py_int (- stepsize ! i - 1))"
  shows "\<exists>out. for_loop [0..<length stepsize] (get_params_tie stepsize) A = Inr out
           \<and> length out = length stepsize
           \<and> (\<forall>k<length stepsize.
                 out ! k = (if stepsize ! k < 0 then A ! nat (py_int (- stepsize ! k - 1)) else A ! k))"
proof -
  let ?n = "length stepsize"
  let ?P = "\<lambda>i B. length B = ?n
      \<and> (\<forall>k<?n. B ! k = (if stepsize ! k < 0 \<and> k < i then A ! nat (py_int (- stepsize ! k - 1)) else A ! k))"
  have "\<exists>s'. for_loop [0..<?n] (get_params_tie stepsize) A = Inr s' \<and> ?P ?n s'"
  proof (rule for_loop_invariant [where P = ?P])
    show "0 \<le> ?n" by simp
    show "?P 0 A" using assms(1) by simp
  next
    fix i B assume i: "0 \<le> i" "i < ?n" and P: "?P i B"
    show "\<exists>s'. get_params_tie stepsize i B = Inr s' \<and> ?P (Suc i) s'"
    proof (cases "stepsize ! i < 0")
      case True
      let ?r = "nat (py_int (- stepsize ! i - 1))"
      have r: "?r < ?n" "0 \<le> stepsize ! ?r" using assms(2) i True by auto
      have g: "py_get B (py_int (- stepsize ! i - 1)) = Inr (B ! ?r)"
      proof -
        have "length B = ?n" using P by simp
        moreover have "0 \<le> py_int (- stepsize ! i - 1)" by (rule py_int_tie [OF True])
        moreover from this have "py_int (- stepsize ! i - 1) < int ?n" using r(1) by linarith
        ultimately show ?thesis by (simp add: py_get_def Let_def)
      qed
      have Br: "B ! ?r = A ! ?r" using P r by auto
      show ?thesis using True g Br P i
        by (auto simp: get_params_tie_def nth_list_update less_Suc_eq)
    next
      case False
      then show ?thesis using P i
        by (auto simp: get_params_tie_def less_Suc_eq)
    qed
  qed
  then show ?thesis by auto
qed

text \<open>
  Claim C4. Let the step-size vector have as many positive entries as the reduced vector
  \<open>bestP\<close> has entries, let the prior vector \<open>params\<close> have the length of the
  step-size vector, and let every negative step size \<open>s\<close> refer (by \<open>int(-s - 1)\<close>,
  which is \<open>-s - 1\<close> for a whole number \<open>s\<close>) to an index of the vector whose own step
  size is not negative, as the data model requires of a tie. Then \<open>get_params\<close>
  returns a vector of that length in which an index with positive step size holds the
  next entry of \<open>bestP\<close> in order, an index with step size zero holds the prior value,
  and an index with negative step size holds the value of the index it refers to.
\<close>

theorem get_params_expands:
  assumes "length params = length stepsize"
    and "length bestP = length (filter (\<lambda>s. 0 < s) stepsize)"
    and "\<forall>i<length stepsize. stepsize ! i < 0 \<longrightarrow>
           nat (py_int (- stepsize ! i - 1)) < length stepsize
         \<and> 0 \<le> stepsize ! nat (py_int (- stepsize ! i - 1))"
  shows "\<exists>out. get_params bestP stepsize params = Inr out
           \<and> length out = length stepsize
           \<and> (\<forall>i<length stepsize.
                 (0 < stepsize ! i \<longrightarrow>
                    out ! i = bestP ! length (filter (\<lambda>s. 0 < s) (take i stepsize)))
               \<and> (stepsize ! i = 0 \<longrightarrow> out ! i = params ! i)
               \<and> (stepsize ! i < 0 \<longrightarrow> out ! i = out ! nat (py_int (- stepsize ! i - 1))))"
proof -
  let ?n = "length stepsize"
  obtain j A where A: "for_loop [0..<?n] (get_params_fill bestP stepsize params) (0, replicate ?n 0) = Inr (j, A)"
      "length A = ?n"
      "\<forall>k<?n. A ! k = (if 0 < stepsize ! k then bestP ! npos stepsize k else params ! k)"
    using get_params_first_loop [OF assms(1), of bestP] assms(2) by auto
  obtain out where out: "for_loop [0..<?n] (get_params_tie stepsize) A = Inr out"
      "length out = ?n"
      "\<forall>k<?n. out ! k = (if stepsize ! k < 0 then A ! nat (py_int (- stepsize ! k - 1)) else A ! k)"
    using get_params_second_loop [OF A(2) assms(3)] by auto
  have "get_params bestP stepsize params = Inr out"
    using A(1) out(1) by (simp add: get_params_def)
  moreover have "\<forall>i<?n. (0 < stepsize ! i \<longrightarrow> out ! i = bestP ! length (filter (\<lambda>s. 0 < s) (take i stepsize)))
               \<and> (stepsize ! i = 0 \<longrightarrow> out ! i = params ! i)
               \<and> (stepsize ! i < 0 \<longrightarrow> out ! i = out ! nat (py_int (- stepsize ! i - 1)))"
  proof (intro allI impI)
    fix i assume i: "i < ?n"
    show "(0 < stepsize ! i \<longrightarrow> out ! i = bestP ! length (filter (\<lambda>s. 0 < s) (take i stepsize)))
               \<and> (stepsize ! i = 0 \<longrightarrow> out ! i = params ! i)
               \<and> (stepsize ! i < 0 \<longrightarrow> out ! i = out ! nat (py_int (- stepsize ! i - 1)))"
    proof (intro conjI impI)
      assume "0 < stepsize ! i"
      then show "out ! i = bestP ! length (filter (\<lambda>s. 0 < s) (take i stepsize))"
        using out(3) A(3) i by (simp add: npos_def)
    next
      assume "stepsize ! i = 0"
      then show "out ! i = params ! i" using out(3) A(3) i by simp
    next
      assume neg: "stepsize ! i < 0"
      let ?r = "nat (py_int (- stepsize ! i - 1))"
      have r: "?r < ?n" "0 \<le> stepsize ! ?r" using assms(3) i neg by auto
      have "out ! ?r = A ! ?r" using out(3) r by auto
      then show "out ! i = out ! ?r" using out(3) i neg by simp
    qed
  qed
  ultimately show ?thesis using out(2) by blast
qed

theorem get_params_expands_witness:
  "\<exists>out. get_params [5] [1, 0, - 1] [7, 8, 9] = Inr out \<and> length out = 3
     \<and> out ! 0 = 5 \<and> out ! 1 = 8 \<and> out ! 2 = out ! 0"
  using get_params_expands [of "[7, 8, 9]" "[1, 0, - 1]" "[5]"]
  by (simp add: py_int_def All_less_Suc2 numeral_3_eq_3 numeral_2_eq_2)

lemma get_params_fill_error:
  "get_params_fill bestP stepsize params i st = Inl e \<Longrightarrow> e = IndexError"
  by (cases st) (auto simp: get_params_fill_def py_get_def Let_def split: if_splits sum.splits)

lemma get_params_tie_error:
  "get_params_tie stepsize i A = Inl e \<Longrightarrow> e = IndexError"
  by (auto simp: get_params_tie_def py_get_def Let_def split: if_splits sum.splits)

lemma for_loop_error_from_body:
  assumes "\<And>i s e. body i s = Inl e \<Longrightarrow> e = err"
  shows "for_loop xs body s = Inl e \<Longrightarrow> e = err"
proof (induction xs arbitrary: s)
  case Nil then show ?case by simp
next
  case (Cons i xs)
  then show ?case using assms by (auto split: sum.splits)
qed

lemma get_params_fill_counter:
  "k \<le> length stepsize \<Longrightarrow>
   for_loop [0..<k] (get_params_fill bestP stepsize params) (0, A0) = Inr (j, A) \<Longrightarrow>
   j = npos stepsize k \<and> j \<le> length bestP"
proof (induction k arbitrary: j A)
  case 0
  then show ?case by (simp add: npos_def)
next
  case (Suc k)
  have split: "[0..<Suc k] = [0..<k] @ [k]" by simp
  from Suc.prems(2) obtain j' A' where
    pre: "for_loop [0..<k] (get_params_fill bestP stepsize params) (0, A0) = Inr (j', A')"
    and step: "get_params_fill bestP stepsize params k (j', A') = Inr (j, A)"
    unfolding split for_loop_append by (auto split: sum.splits)
  have ih: "j' = npos stepsize k" "j' \<le> length bestP"
    using Suc.IH [OF _ pre] Suc.prems(1) by auto
  have k: "k < length stepsize" using Suc.prems(1) by simp
  show ?case
  proof (cases "0 < stepsize ! k")
    case True
    with step have "j' < length bestP" "j = Suc j'"
      by (auto simp: get_params_fill_def py_get_nat split: if_splits)
    then show ?thesis using ih True k by (simp add: npos_Suc)
  next
    case False
    with step have "j = j'"
      by (auto simp: get_params_fill_def py_get_nat split: if_splits)
    then show ?thesis using ih False k by (simp add: npos_Suc)
  qed
qed

text \<open>
  Claim C8. When the reduced vector has fewer entries than the step-size vector has
  positive entries, \<open>get_params\<close> returns no vector: it raises. The exception is
  Python's \<open>IndexError\<close>, from the read \<open>bestP[j]\<close> (or from \<open>params[i]\<close> when the
  prior vector is too short as well); it is the failure that the specification calls
  ParameterCountMismatch.
\<close>

theorem get_params_too_few:
  assumes "length bestP < length (filter (\<lambda>s. 0 < s) stepsize)"
  shows "get_params bestP stepsize params = Inl IndexError"
proof -
  let ?n = "length stepsize"
  let ?r = "for_loop [0..<?n] (get_params_fill bestP stepsize params) (0, replicate ?n 0)"
  show ?thesis
  proof (cases ?r)
    case (Inl e)
    then have "e = IndexError"
      using for_loop_error_from_body [of "get_params_fill bestP stepsize params" IndexError]
        get_params_fill_error by blast
    then show ?thesis using Inl by (simp add: get_params_def)
  next
    case (Inr st)
    obtain j A where st: "st = (j, A)" by (cases st)
    have "j = npos stepsize ?n \<and> j \<le> length bestP"
      using get_params_fill_counter [of ?n stepsize bestP params _ j A] Inr st by simp
    then have "length (filter (\<lambda>s. 0 < s) stepsize) \<le> length bestP" by (simp add: npos_def)
    with assms show ?thesis by simp
  qed
qed

theorem get_params_too_few_witness:
  "length ([3] :: real list) < length (filter (\<lambda>s. 0 < s) [1, 0, 2 :: real])
   \<and> get_params [3] [1, 0, 2] [7, 8, 9] = Inl IndexError"
  using get_params_too_few [of "[3]" "[1, 0, 2]" "[7, 8, 9]"] by simp

section \<open>CompositeModel\<close>

lemma fsum_snoc: "fsum (vs @ [v]) = fadd (fsum vs) v"
  by (simp add: fsum_def)

lemma column_ok:
  "\<forall>r\<in>set m. length r = n \<Longrightarrow> i < n \<Longrightarrow> column m i = Inr (map (\<lambda>r. r ! i) m)"
  by (simp add: column_def list_all_iff)

lemma zen_pld_loop:
  assumes rows: "\<forall>r\<in>set phat. length r = npix" and par: "npix \<le> length par"
  shows "\<exists>PLD. for_loop [0..<npix] (zen_pld par phat) (Scalar (Some 0)) = Inr PLD
           \<and> (if npix = 0 then PLD = Scalar (Some 0)
               else PLD = Array (map (\<lambda>r. fsum (map (\<lambda>k. fmul (Some (par ! k)) (r ! k)) [0..<npix])) phat))"
proof -
  let ?P = "\<lambda>i PLD. (if i = 0 then PLD = Scalar (Some 0)
               else PLD = Array (map (\<lambda>r. fsum (map (\<lambda>k. fmul (Some (par ! k)) (r ! k)) [0..<i])) phat))"
  show ?thesis
  proof (rule for_loop_invariant [where P = ?P])
    show "0 \<le> npix" by simp
    show "?P 0 (Scalar (Some 0))" by simp
  next
    fix i PLD assume i: "0 \<le> i" "i < npix" and P: "?P i PLD"
    have g: "py_get par (int i) = Inr (par ! i)" using i par by (simp add: py_get_nat)
    have c: "column phat i = Inr (map (\<lambda>r. r ! i) phat)" using rows i(2) by (rule column_ok)
    show "\<exists>s'. zen_pld par phat i PLD = Inr s' \<and> ?P (Suc i) s'"
    proof (cases "i = 0")
      case True
      then show ?thesis using P g c by (simp add: zen_pld_def fsum_def comp_def)
    next
      case False
      then show ?thesis using P g c
        by (simp add: zen_pld_def fsum_snoc comp_def map2_map_map)
    qed
  qed
qed

text \<open>
  Claim C1. For a parameter vector of length \<open>npix + 9\<close> and a matrix \<open>phat\<close> with one row
  of \<open>npix\<close> entries per sample of \<open>x\<close>, \<open>zen\<close> returns at each sample \<open>s\<close> the pixel
  term, the sum over \<open>i < npix\<close> of \<open>par[i] * phat[s, i]\<close>, plus \<open>par[npix + 5]\<close> times
  (the eclipse model with parameters \<open>par[npix .. npix + 5]\<close> at that sample, minus 1), plus
  the ramp \<open>par[npix + 6] + par[npix + 7] * x[s] + par[npix + 8] * x[s]\<^sup>2\<close>.
\<close>

theorem zen_is_sum_of_terms:
  assumes "length par = npix + 9" and "length phat = length x"
    and "\<forall>r\<in>set phat. length r = npix"
  shows "\<exists>ecl. eclipse x (take 6 (drop npix par)) = Inr ecl \<and> length ecl = length x
           \<and> zen par x phat npix
               = Inr (Array (map (\<lambda>s.
                    fadd (fadd (fsum (map (\<lambda>i. fmul (Some (par ! i)) (phat ! s ! i)) [0..<npix]))
                               (fmul (Some (par ! (npix + 5))) (fsub (ecl ! s) (Some 1))))
                         (fadd (fadd (Some (par ! (npix + 6)))
                                     (fmul (Some (par ! (npix + 7))) (x ! s)))
                               (fmul (Some (par ! (npix + 8))) (fmul (x ! s) (x ! s)))))
                    [0..<length x]))"
proof -
  let ?ep = "take 6 (drop npix par)"
  have ep: "drop npix (take (length par - 3) par) = ?ep"
    using assms(1) by (simp add: drop_take)
  have len: "length ?ep = 6" using assms(1) by simp
  obtain ecl where ecl: "eclipse x ?ep = Inr ecl" "length ecl = length x"
    using eclipse_returns [of ?ep x] len by (metis order_refl)
  have lst: "last ?ep = par ! (npix + 5)"
    using assms(1) len by (simp add: last_conv_nth)
  obtain PLD where PLD: "for_loop [0..<npix] (zen_pld par phat) (Scalar (Some 0)) = Inr PLD"
    "if npix = 0 then PLD = Scalar (Some 0)
     else PLD = Array (map (\<lambda>r. fsum (map (\<lambda>k. fmul (Some (par ! k)) (r ! k)) [0..<npix])) phat)"
    using zen_pld_loop [OF assms(3), of par] assms(1) by auto
  let ?E = "map (\<lambda>e. fmul (Some (par ! (npix + 5))) (fsub e (Some 1))) ecl"
  let ?R = "map (\<lambda>xi. fadd (fadd (Some (par ! (npix + 6))) (fmul (Some (par ! (npix + 7))) xi))
                          (fmul (Some (par ! (npix + 8))) (fmul xi xi))) x"
  let ?S = "map (\<lambda>s. fadd (fsum (map (\<lambda>i. fmul (Some (par ! i)) (phat ! s ! i)) [0..<npix])) (?E ! s))
              [0..<length x]"
  have s1: "np_add PLD (Array ?E) = Inr (Array ?S)"
  proof (cases "npix = 0")
    case True
    then have "PLD = Scalar (Some 0)" using PLD(2) by simp
    moreover have "map (fadd (Some 0)) ?E = ?S"
      using True ecl(2) by (intro nth_equalityI) (simp_all add: fsum_def)
    ultimately show ?thesis by simp
  next
    case False
    then have P: "PLD = Array (map (\<lambda>r. fsum (map (\<lambda>k. fmul (Some (par ! k)) (r ! k)) [0..<npix])) phat)"
      using PLD(2) by simp
    have "map2 fadd (map (\<lambda>r. fsum (map (\<lambda>k. fmul (Some (par ! k)) (r ! k)) [0..<npix])) phat) ?E = ?S"
      using ecl(2) assms(2) by (intro nth_equalityI) simp_all
    then show ?thesis using P ecl(2) assms(2) by simp
  qed
  have s2: "np_add (Array ?S) (Array ?R)
      = Inr (Array (map (\<lambda>s. fadd (?S ! s) (?R ! s)) [0..<length x]))"
  proof -
    have "map2 fadd ?S ?R = map (\<lambda>s. fadd (?S ! s) (?R ! s)) [0..<length x]"
      by (intro nth_equalityI) simp_all
    then show ?thesis by simp
  qed
  have fin: "map (\<lambda>s. fadd (?S ! s) (?R ! s)) [0..<length x]
     = map (\<lambda>s.
                    fadd (fadd (fsum (map (\<lambda>i. fmul (Some (par ! i)) (phat ! s ! i)) [0..<npix]))
                               (fmul (Some (par ! (npix + 5))) (fsub (ecl ! s) (Some 1))))
                         (fadd (fadd (Some (par ! (npix + 6)))
                                     (fmul (Some (par ! (npix + 7))) (x ! s)))
                               (fmul (Some (par ! (npix + 8))) (fmul (x ! s) (x ! s)))))
                    [0..<length x]"
    using ecl(2) by (intro nth_equalityI) simp_all
  have idx: "par ! (length par - 3) = par ! (npix + 6)" "par ! (length par - 2) = par ! (npix + 7)"
    "par ! (length par - 1) = par ! (npix + 8)"
    using assms(1) by (simp_all add: add.commute)
  have "zen par x phat npix = Inr (Array (map (\<lambda>s. fadd (?S ! s) (?R ! s)) [0..<length x]))"
    unfolding zen_def Let_def ep lst idx using ecl(1) PLD(1) s1 s2 by simp
  then show ?thesis using ecl fin by simp
qed

theorem zen_is_sum_of_terms_witness:
  "\<exists>ecl. eclipse [Some 0] (take 6 (drop 1 [2, 0, 2, 1 / 4, 1 / 2, 1 / 2, 3, 1, 1, 1])) = Inr ecl
     \<and> length ecl = 1
     \<and> zen [2, 0, 2, 1 / 4, 1 / 2, 1 / 2, 3, 1, 1, 1] [Some 0] [[Some 5]] 1
         = Inr (Array [fadd (fadd (fsum [fmul (Some 2) (Some 5)])
                                  (fmul (Some 3) (fsub (ecl ! 0) (Some 1))))
                            (fadd (fadd (Some 1) (fmul (Some 1) (Some 0)))
                                  (fmul (Some 1) (fmul (Some 0) (Some 0))))])"
  using zen_is_sum_of_terms [of "[2, 0, 2, 1 / 4, 1 / 2, 1 / 2, 3, 1, 1, 1]" 1 "[[Some 5]]" "[Some 0]"]
  by simp

section \<open>Binner\<close>

lemma py_min_Min: "x \<noteq> [] \<Longrightarrow> py_min x = Inr (Min (set x))"
proof (cases x)
  case Nil
  assume "x \<noteq> []"
  with Nil show ?thesis by simp
next
  case (Cons v vs)
  have "fold min vs v = Min (set (v # vs))" by (simp only: Min.set_eq_fold)
  then show ?thesis using Cons by (simp add: py_min_def)
qed

lemma py_max_Max: "x \<noteq> [] \<Longrightarrow> py_max x = Inr (Max (set x))"
proof (cases x)
  case Nil
  assume "x \<noteq> []"
  with Nil show ?thesis by simp
next
  case (Cons v vs)
  have "fold max vs v = Max (set (v # vs))" by (simp only: Max.set_eq_fold)
  then show ?thesis using Cons by (simp add: py_max_def)
qed

lemma length_bin_members:
  "length a = length d \<Longrightarrow> length (bin_members d i a) = length (filter (\<lambda>k. k = i) d)"
proof (induction d arbitrary: a)
  case Nil then show ?case by (simp add: bin_members_def)
next
  case (Cons k d)
  then obtain v a' where a: "a = v # a'" by (cases a) auto
  with Cons show ?case by (simp add: bin_members_def)
qed

lemma bin_members_empty_iff:
  assumes "length a = length d"
  shows "bin_members d i a = [] \<longleftrightarrow> i \<notin> set d"
proof -
  have "bin_members d i a = [] \<longleftrightarrow> length (bin_members d i a) = 0" by simp
  also have "\<dots> \<longleftrightarrow> filter (\<lambda>k. k = i) d = []"
    by (simp only: length_bin_members [OF assms] length_0_conv)
  also have "\<dots> \<longleftrightarrow> i \<notin> set d" by (auto simp: filter_empty_conv)
  finally show ?thesis .
qed

lemma compress_map: "compress (map g is) (map f is) = map f (filter g is)"
  by (induction "is") (simp_all add: compress_def)

lemma np_mean_nonempty: "vs \<noteq> [] \<Longrightarrow> np_mean vs = Some (sum_list vs / real (length vs))"
  by (simp add: np_mean_def fdiv_def)

lemma bin_yerr_nonempty:
  assumes "es \<noteq> []"
  shows "bin_yerr es = Some (sqrt (sum_list (map (\<lambda>e. e\<^sup>2) es)) / real (length es))"
proof -
  have "0 \<le> sum_list (map (\<lambda>e. e\<^sup>2) es)" by (rule sum_list_nonneg) auto
  then show ?thesis using assms by (simp add: bin_yerr_def fsqrt_def fdiv_def)
qed

lemma bindata_loop:
  assumes y: "length y = length d" and x: "length x = length d"
    and e: "\<forall>e. yerr = Some e \<longrightarrow> length e = length d"
  shows "\<exists>st. for_loop [1..<n + 1] (bindata_body x y yerr d)
                 \<lparr>binmask = replicate n True, bin_means_x = replicate n (Some 0),
                  bin_means_y = replicate n (Some 0),
                  bin_means_yerr = map_option (\<lambda>_. replicate n (Some 0)) yerr\<rparr> = Inr st
           \<and> binmask st = map (\<lambda>i. i \<in> set d) [1..<n + 1]
           \<and> bin_means_x st = map (\<lambda>i. np_mean (bin_members d i x)) [1..<n + 1]
           \<and> bin_means_y st = map (\<lambda>i. np_mean (bin_members d i y)) [1..<n + 1]
           \<and> bin_means_yerr st
               = map_option (\<lambda>e. map (\<lambda>i. bin_yerr (bin_members d i e)) [1..<n + 1]) yerr"
proof -
  let ?P = "\<lambda>k (st :: bin_state). length (binmask st) = n \<and> length (bin_means_x st) = n
      \<and> length (bin_means_y st) = n
      \<and> (\<forall>j. Suc j < k \<longrightarrow> binmask st ! j = (Suc j \<in> set d)
             \<and> bin_means_x st ! j = np_mean (bin_members d (Suc j) x)
             \<and> bin_means_y st ! j = np_mean (bin_members d (Suc j) y))
      \<and> (\<forall>j. k \<le> Suc j \<longrightarrow> j < n \<longrightarrow> binmask st ! j = True)
      \<and> (case yerr of None \<Rightarrow> bin_means_yerr st = None
          | Some e \<Rightarrow> (\<exists>a. bin_means_yerr st = Some a \<and> length a = n
               \<and> (\<forall>j. Suc j < k \<longrightarrow> a ! j = bin_yerr (bin_members d (Suc j) e))))"
  let ?st0 = "\<lparr>binmask = replicate n True, bin_means_x = replicate n (Some 0),
                  bin_means_y = replicate n (Some 0),
                  bin_means_yerr = map_option (\<lambda>_. replicate n (Some 0)) yerr\<rparr>"
  have "\<exists>st. for_loop [1..<n + 1] (bindata_body x y yerr d) ?st0 = Inr st \<and> ?P (n + 1) st"
  proof (rule for_loop_invariant [where P = ?P])
    show "1 \<le> n + 1" by simp
    show "?P 1 ?st0" by (cases yerr) simp_all
  next
    fix i and st :: bin_state assume i: "1 \<le> i" "i < n + 1" and P: "?P i st"
    obtain j where j: "i = Suc j" "j < n" using i by (cases i) auto
    have sy: "bin_select d i y = Inr (bin_members d i y)" using y by (simp add: bin_select_def)
    have sx: "bin_select d i x = Inr (bin_members d i x)" using x by (simp add: bin_select_def)
    have ey: "bin_members d i y = [] \<longleftrightarrow> i \<notin> set d" using y by (rule bin_members_empty_iff)
    have ex: "bin_members d i x = [] \<longleftrightarrow> i \<notin> set d" using x by (rule bin_members_empty_iff)
    show "\<exists>s'. bindata_body x y yerr d i st = Inr s' \<and> ?P (Suc i) s'"
    proof (cases yerr)
      case None
      then show ?thesis using P sy sx ey ex j
        by (auto simp: bindata_body_def Let_def nth_list_update less_Suc_eq)
    next
      case (Some e')
      then have se: "bin_select d i e' = Inr (bin_members d i e')" using e by (simp add: bin_select_def)
      from P Some obtain a where a: "bin_means_yerr st = Some a" "length a = n"
        "\<forall>j. Suc j < i \<longrightarrow> a ! j = bin_yerr (bin_members d (Suc j) e')" by auto
      show ?thesis using P sy sx se ey ex j Some a
        by (auto simp: bindata_body_def Let_def nth_list_update less_Suc_eq)
    qed
  qed
  then obtain st where st: "for_loop [1..<n + 1] (bindata_body x y yerr d) ?st0 = Inr st"
    and P: "?P (n + 1) st" by blast
  have m: "binmask st = map (\<lambda>i. i \<in> set d) [1..<n + 1]"
    using P by (intro nth_equalityI) (simp_all del: upt_Suc)
  have bx: "bin_means_x st = map (\<lambda>i. np_mean (bin_members d i x)) [1..<n + 1]"
    using P by (intro nth_equalityI) (simp_all del: upt_Suc)
  have "by": "bin_means_y st = map (\<lambda>i. np_mean (bin_members d i y)) [1..<n + 1]"
    using P by (intro nth_equalityI) (simp_all del: upt_Suc)
  have be: "bin_means_yerr st
               = map_option (\<lambda>e. map (\<lambda>i. bin_yerr (bin_members d i e)) [1..<n + 1]) yerr"
  proof (cases yerr)
    case None then show ?thesis using P by simp
  next
    case (Some e')
    with P obtain a where a: "bin_means_yerr st = Some a" "length a = n"
        "\<forall>j. Suc j < n + 1 \<longrightarrow> a ! j = bin_yerr (bin_members d (Suc j) e')" by auto
    have "a = map (\<lambda>i. bin_yerr (bin_members d i e')) [1..<n + 1]"
      using a by (intro nth_equalityI) (simp_all del: upt_Suc)
    then show ?thesis using a Some by simp
  qed
  show ?thesis using st m bx "by" be by blast
qed

lemma bindata_result:
  assumes "x \<noteq> []" and "np_arange (Min (set x)) (Max (set x)) width = Inr bins"
    and "length y = length x" and "\<forall>e. yerr = Some e \<longrightarrow> length e = length x"
  shows "bindata x y width yerr
           = Inr (map (\<lambda>i. np_mean (bin_members (digitize x bins) i x))
                    (filter (\<lambda>i. i \<in> set (digitize x bins)) [1..<length bins + 1]),
                  map (\<lambda>i. np_mean (bin_members (digitize x bins) i y))
                    (filter (\<lambda>i. i \<in> set (digitize x bins)) [1..<length bins + 1]),
                  map_option (\<lambda>e. map (\<lambda>i. bin_yerr (bin_members (digitize x bins) i e))
                    (filter (\<lambda>i. i \<in> set (digitize x bins)) [1..<length bins + 1])) yerr)"
proof -
  let ?d = "digitize x bins"
  let ?n = "length bins"
  have ld: "length ?d = length x" by (simp add: digitize_def)
  obtain st where st: "for_loop [1..<?n + 1] (bindata_body x y yerr ?d)
                 \<lparr>binmask = replicate ?n True, bin_means_x = replicate ?n (Some 0),
                  bin_means_y = replicate ?n (Some 0),
                  bin_means_yerr = map_option (\<lambda>_. replicate ?n (Some 0)) yerr\<rparr> = Inr st"
    and r: "binmask st = map (\<lambda>i. i \<in> set ?d) [1..<?n + 1]"
      "bin_means_x st = map (\<lambda>i. np_mean (bin_members ?d i x)) [1..<?n + 1]"
      "bin_means_y st = map (\<lambda>i. np_mean (bin_members ?d i y)) [1..<?n + 1]"
      "bin_means_yerr st
               = map_option (\<lambda>e. map (\<lambda>i. bin_yerr (bin_members ?d i e)) [1..<?n + 1]) yerr"
  proof -
    have "length y = length ?d" "length x = length ?d" "\<forall>e. yerr = Some e \<longrightarrow> length e = length ?d"
      using assms(3,4) ld by simp_all
    from bindata_loop [OF this, of ?n] that show ?thesis by blast
  qed
  have "bindata x y width yerr
      = Inr (compress (binmask st) (bin_means_x st), compress (binmask st) (bin_means_y st),
             map_option (compress (binmask st)) (bin_means_yerr st))"
    using assms(1,2) st by (simp add: bindata_def py_min_Min py_max_Max Let_def)
  then show ?thesis using r
    by (cases yerr) (simp_all add: compress_map)
qed

lemma bindata_arange_error:
  assumes "x \<noteq> []" and "np_arange (Min (set x)) (Max (set x)) width = Inl e"
  shows "bindata x y width yerr = Inl e"
  using assms by (simp add: bindata_def py_min_Min py_max_Max)

section \<open>The bin edges\<close>

lemma dsub_Fin [simp]: "dsub (Fin a) (Fin b) = fin (a - b)"
  by (simp add: dsub_def)

lemma fin_double: "is_double x \<Longrightarrow> fin x = Fin x"
  by (simp add: is_double_def fin_def abs_less_iff)

lemma fin_cases:
  obtains "fin x = Fin (rd x)" "\<bar>rd x\<bar> < 2 ^ 1024"
  | "fin x = PInf" "2 ^ 1024 \<le> rd x"
  | "fin x = MInf" "rd x \<le> - (2 ^ 1024)"
  by (cases "2 ^ 1024 \<le> rd x"; cases "rd x \<le> - (2 ^ 1024)") (auto simp: fin_def abs_less_iff)

lemma fin_nonneg_cases:
  assumes "0 \<le> x"
  obtains "fin x = Fin (rd x)" "0 \<le> rd x" | "fin x = PInf"
proof -
  have "0 \<le> rd x" using assms by (rule rd_nonneg)
  then show ?thesis using that by (cases x rule: fin_cases) auto
qed

lemma arange_length_positive:
  assumes "is_double lo" and "is_double hi" and "lo < hi" and "0 < width"
    and "arange_length lo hi width = Inr n"
  shows "0 < n"
proof -
  have D: "0 < rd (hi - lo)" using assms(1-3) by (rule rd_difference_pos)
  have "0 \<le> hi - lo" using assms(3) by simp
  then show ?thesis
  proof (cases rule: fin_nonneg_cases)
    case 2
    then show ?thesis using assms(4,5) by (simp add: arange_length_def Let_def)
  next
    case 1
    have "0 \<le> rd (hi - lo) / width" using D assms(4) by simp
    then show ?thesis
    proof (cases rule: fin_nonneg_cases)
      case 2
      then show ?thesis using 1 assms(4,5) by (simp add: arange_length_def Let_def)
    next
      case q: 1
      show ?thesis
      proof (cases "rd (rd (hi - lo) / width) = 0")
        case True
        then show ?thesis using 1 q D assms(4,5) by (simp add: arange_length_def Let_def)
      next
        case False
        then have "0 < rd (rd (hi - lo) / width)" using q(2) by simp
        then have "0 < \<lceil>rd (rd (hi - lo) / width)\<rceil>" by (simp add: less_ceiling_iff)
        then show ?thesis
          using 1 q False assms(4,5) by (auto simp add: arange_length_def Let_def split: if_splits)
      qed
    qed
  qed
qed

lemma arange_length_one:
  assumes "is_double lo" and "is_double hi" and "is_double width" and "lo < hi"
    and "hi - lo \<le> width"
  shows "arange_length lo hi width = Inr 1"
proof -
  have w: "0 < width" using assms(4,5) by linarith
  have D: "0 < rd (hi - lo)" using assms(1,2,4) by (rule rd_difference_pos)
  have "rd (hi - lo) \<le> rd width" using assms(5) by (rule rd_mono)
  then have Dw: "rd (hi - lo) \<le> width" using assms(3) by (simp add: is_double_def)
  then have "\<bar>rd (hi - lo)\<bar> < 2 ^ 1024" using D assms(3) by (simp add: is_double_def)
  then have d: "fin (hi - lo) = Fin (rd (hi - lo))" by (simp add: fin_def abs_less_iff)
  have "\<bar>rd (hi - lo) / width\<bar> \<le> 2 ^ 0" using D Dw w by simp
  note q = fin_bounded [OF this]
  have q0: "0 \<le> rd (rd (hi - lo) / width)" using D w by (intro rd_nonneg) simp
  show ?thesis
  proof (cases "rd (rd (hi - lo) / width) = 0")
    case True
    then show ?thesis using d q(1) D w by (simp add: arange_length_def Let_def)
  next
    case False
    then have "0 < rd (rd (hi - lo) / width)" using q0 by simp
    moreover have "rd (rd (hi - lo) / width) \<le> 1" using q(2) by simp
    ultimately have "\<lceil>rd (rd (hi - lo) / width)\<rceil> = 1" by (intro ceiling_unique) simp_all
    then show ?thesis using d q(1) False w by (simp add: arange_length_def Let_def)
  qed
qed

lemma np_arange_length:
  assumes "np_arange start stop step = Inr bins"
  shows "arange_length start stop step = Inr (length bins)"
  using assms by (cases "arange_length start stop step") (auto simp: np_arange_def Let_def)

lemma np_arange_first:
  assumes "np_arange start stop step = Inr bins" and "bins \<noteq> []"
  shows "bins ! 0 = Fin start"
proof -
  obtain n where n: "arange_length start stop step = Inr n"
    using assms(1) by (cases "arange_length start stop step") (auto simp: np_arange_def)
  then have "0 < n" using assms by (auto simp: np_arange_def Let_def)
  then show ?thesis using assms(1) n by (auto simp: np_arange_def Let_def nth_map_upt)
qed

lemma np_arange_one:
  assumes "is_double lo" and "is_double hi" and "is_double width" and "lo < hi"
    and "hi - lo \<le> width"
  shows "np_arange lo hi width = Inr [Fin lo]"
  using arange_length_one [OF assms] by (simp add: np_arange_def)

lemma np_arange_nonempty:
  assumes "is_double lo" and "is_double hi" and "lo < hi" and "0 < width"
    and "np_arange lo hi width = Inr bins"
  shows "bins \<noteq> []"
  using arange_length_positive [OF assms(1-4) np_arange_length [OF assms(5)]] by simp

lemma Min_Max_double:
  assumes "x \<noteq> []" and "list_all is_double x"
  shows "is_double (Min (set x))" and "is_double (Max (set x))"
proof -
  have "Min (set x) \<in> set x" "Max (set x) \<in> set x" using assms(1) by simp_all
  then show "is_double (Min (set x))" "is_double (Max (set x))"
    using assms(2) by (simp_all add: list_all_iff)
qed

section \<open>One bin\<close>

lemma bin_members_all:
  "length a = length x \<Longrightarrow> bin_members (map (\<lambda>_. i) x) i a = a"
proof (induction x a rule: list_induct2')
  case (4 v x w a)
  then show ?case by (simp add: bin_members_def)
qed (simp_all add: bin_members_def)

lemma bindata_one_bin:
  assumes "x \<noteq> []" and "Min (set x) < Max (set x)" and "Max (set x) - Min (set x) \<le> width"
    and "length y = length x" and "\<forall>e. yerr = Some e \<longrightarrow> length e = length x"
    and "list_all is_double x" and "is_double width"
  shows "bindata x y width yerr
           = Inr ([Some (sum_list x / real (length x))], [Some (sum_list y / real (length y))],
                  map_option (\<lambda>e. [bin_yerr e]) yerr)"
proof -
  let ?lo = "Min (set x)" and ?hi = "Max (set x)"
  have bins: "np_arange ?lo ?hi width = Inr [Fin ?lo]"
    using Min_Max_double [OF assms(1,6)] assms(7,2,3) by (intro np_arange_one)
  have d: "digitize x [Fin ?lo] = map (\<lambda>_. 1) x" by (simp add: digitize_def)
  have occ: "filter (\<lambda>i. i \<in> set (map (\<lambda>_. 1 :: nat) x)) [1..<length [Fin ?lo] + 1] = [1]"
    using assms(1) by (cases x) simp_all
  note r = bindata_result [OF assms(1) bins assms(4,5)]
  have mx: "bin_members (map (\<lambda>_. 1) x) 1 x = x" by (rule bin_members_all) simp
  have my: "bin_members (map (\<lambda>_. 1) x) 1 y = y" by (rule bin_members_all) (rule assms(4))
  have ynil: "y \<noteq> []" using assms(1,4) by auto
  have me: "map_option (\<lambda>e. map (\<lambda>i. bin_yerr (bin_members (map (\<lambda>_. 1) x) i e)) [1]) yerr
      = map_option (\<lambda>e. [bin_yerr e]) yerr"
  proof (cases yerr)
    case None then show ?thesis by simp
  next
    case (Some e)
    then have "bin_members (map (\<lambda>_. 1) x) 1 e = e" using assms(5) by (intro bin_members_all) simp
    then show ?thesis using Some by simp
  qed
  show ?thesis
    unfolding r d occ me [symmetric]
    using assms(1) ynil by (simp add: mx [simplified] my [simplified] np_mean_nonempty)
qed

text \<open>
  Claim C7. For a non-empty \<open>x\<close> with \<open>max(x) > min(x)\<close>, a \<open>y\<close> of the same length and a
  width of at least \<open>max(x) - min(x)\<close>, \<open>bindata\<close> returns one bin: its \<open>x\<close> is the mean
  of all of \<open>x\<close> and its \<open>y\<close> the mean of all of \<open>y\<close> (and, when \<open>yerr\<close> is given, its
  uncertainty is the combined uncertainty of all samples). The samples \<open>x\<close> and the width
  are doubles, as all numbers of the program are; the quotient
  \<open>(max(x) - min(x)) / width\<close> is then at most 1 after rounding too, and when it underflows
  to zero the length of the edge array is still 1.
\<close>

theorem bindata_single_bin:
  assumes "x \<noteq> []" and "Min (set x) < Max (set x)" and "Max (set x) - Min (set x) \<le> width"
    and "length y = length x" and "\<forall>e. yerr = Some e \<longrightarrow> length e = length x"
    and "list_all is_double x" and "is_double width"
  shows "bindata x y width yerr
           = Inr ([Some (sum_list x / real (length x))], [Some (sum_list y / real (length y))],
                  map_option (\<lambda>e. [bin_yerr e]) yerr)"
  using assms by (rule bindata_one_bin)

theorem bindata_single_bin_witness:
  "bindata [1, 3, 2] [4, 5, 9] 2 None = Inr ([Some 2], [Some 6], None)"
proof -
  have h: "[1, 3, 2] \<noteq> ([] :: real list)" "Min (set [1, 3, 2 :: real]) < Max (set [1, 3, 2])"
    "Max (set [1, 3, 2 :: real]) - Min (set [1, 3, 2]) \<le> 2"
    "length [4, 5, 9 :: real] = length [1, 3, 2 :: real]"
    "\<forall>e. None = Some e \<longrightarrow> length e = length [1, 3, 2 :: real]"
    "list_all is_double [1, 3, 2]" "is_double 2"
    by (simp_all add: is_double_small)
  from bindata_single_bin [OF h] show ?thesis by simp
qed

section \<open>Empty bins\<close>

lemma np_mean_defined: "vs \<noteq> [] \<Longrightarrow> np_mean vs \<noteq> None"
  by (simp add: np_mean_nonempty)

lemma None_notin_map:
  "(\<And>i. i \<in> set is \<Longrightarrow> f i \<noteq> None) \<Longrightarrow> None \<notin> set (map f is)"
  by (induction "is") (auto simp: image_iff, metis option.distinct(1))

lemma bin_yerr_defined: "es \<noteq> [] \<Longrightarrow> bin_yerr es \<noteq> None"
  by (simp add: bin_yerr_nonempty)

lemma rd_pow2_1024: "rd (2 ^ 1024) = 2 ^ 1024"
proof -
  have "rd (of_int 1 * 2 powi 1024) = of_int 1 * 2 powi 1024" by (rule rd_exact) simp_all
  then show ?thesis by simp
qed

lemma arange_0_5_2: "np_arange 0 5 2 = Inr [Fin 0, Fin 2, Fin 4]"
  by (simp add: np_arange_def arange_length_def fin_small Let_def eval_nat_numeral)

text \<open>
  Claim C6 as stated fails: \<open>bindata\<close> raises on some finite inputs with a positive width.
  On an empty \<open>x\<close>, \<open>min(x)\<close> raises \<open>ValueError\<close>. On \<open>x = [-2^1023, 2^1023]\<close> the
  difference \<open>max(x) - min(x)\<close> overflows, the length of the edge array is not finite, and
  \<open>np.arange\<close> raises \<open>ValueError\<close>.
\<close>

theorem bindata_raises_value_error:
  "bindata [] [] 1 None = Inl ValueError
   \<and> bindata [- (2 ^ 1023), 2 ^ 1023] [0, 0] 1 None = Inl ValueError"
proof
  show "bindata [] [] 1 None = Inl ValueError" by (simp add: bindata_def py_min_def)
  have "(2 :: real) ^ 1023 - - (2 ^ 1023) = 2 ^ 1024" by simp
  then have "fin (2 ^ 1023 - - (2 ^ 1023)) = PInf" by (simp only: fin_def rd_pow2_1024) simp
  then have "np_arange (- (2 ^ 1023)) (2 ^ 1023) 1 = Inl ValueError"
    by (simp only: np_arange_def arange_length_def dsub_Fin Let_def) simp
  moreover have "Min (set [- (2 ^ 1023), 2 ^ 1023 :: real]) = - (2 ^ 1023)"
    "Max (set [- (2 ^ 1023), 2 ^ 1023 :: real]) = 2 ^ 1023" by simp_all
  ultimately show "bindata [- (2 ^ 1023), 2 ^ 1023] [0, 0] 1 None = Inl ValueError"
    by (intro bindata_arange_error) simp_all
qed

text \<open>
  Claim C6, amended. For a non-empty \<open>x\<close>, a \<open>y\<close> (and a \<open>yerr\<close>, when given) of the same
  length and a width for which \<open>np.arange(min(x), max(x), width)\<close> returns its array of
  edges, \<open>bindata\<close> raises nothing. The arrays it returns hold one entry for each bin
  \<open>1, \<dots>, len(bins)\<close> that has a sample, in the order of the bins, and none for a bin
  without samples: the mean of the bin's \<open>x\<close>, the mean of its \<open>y\<close> and, when \<open>yerr\<close> is
  given, its combined uncertainty. The arrays have the same length, and no entry is the
  NaN of a mean over no samples.
\<close>

theorem bindata_drops_empty_bins:
  assumes "x \<noteq> []" and "np_arange (Min (set x)) (Max (set x)) width = Inr bins"
    and "length y = length x" and "\<forall>e. yerr = Some e \<longrightarrow> length e = length x"
  shows "\<exists>bx by be.
           bindata x y width yerr = Inr (bx, by, be)
         \<and> bx = map (\<lambda>i. np_mean (bin_members (digitize x bins) i x))
                  (filter (\<lambda>i. i \<in> set (digitize x bins)) [1..<length bins + 1])
         \<and> by = map (\<lambda>i. np_mean (bin_members (digitize x bins) i y))
                  (filter (\<lambda>i. i \<in> set (digitize x bins)) [1..<length bins + 1])
         \<and> be = map_option (\<lambda>e. map (\<lambda>i. bin_yerr (bin_members (digitize x bins) i e))
                  (filter (\<lambda>i. i \<in> set (digitize x bins)) [1..<length bins + 1])) yerr
         \<and> length by = length bx \<and> None \<notin> set bx \<and> None \<notin> set by
         \<and> (\<forall>e. be = Some e \<longrightarrow> length e = length bx \<and> None \<notin> set e)"
proof -
  note r = bindata_result [OF assms]
  let ?d = "digitize x bins"
  let ?occ = "filter (\<lambda>i. i \<in> set ?d) [1..<length bins + 1]"
  have ld: "length ?d = length x" by (simp add: digitize_def)
  have nx: "None \<notin> set (map (\<lambda>i. np_mean (bin_members ?d i x)) ?occ)"
  proof -
    have "np_mean (bin_members ?d i x) \<noteq> None" if "i \<in> set ?d" for i
      using that bin_members_empty_iff [of x ?d i] ld by (intro np_mean_defined) simp
    then show ?thesis by (intro None_notin_map) (simp del: upt_Suc)
  qed
  have ny: "None \<notin> set (map (\<lambda>i. np_mean (bin_members ?d i y)) ?occ)"
  proof -
    have "np_mean (bin_members ?d i y) \<noteq> None" if "i \<in> set ?d" for i
      using that bin_members_empty_iff [of y ?d i] ld assms(3) by (intro np_mean_defined) simp
    then show ?thesis by (intro None_notin_map) (simp del: upt_Suc)
  qed
  have ne: "\<forall>e'. map_option (\<lambda>e. map (\<lambda>i. bin_yerr (bin_members ?d i e)) ?occ) yerr = Some e'
      \<longrightarrow> length e' = length (map (\<lambda>i. np_mean (bin_members ?d i x)) ?occ) \<and> None \<notin> set e'"
  proof (intro allI impI)
    fix e' assume a: "map_option (\<lambda>e. map (\<lambda>i. bin_yerr (bin_members ?d i e)) ?occ) yerr = Some e'"
    then obtain e where e: "yerr = Some e" "e' = map (\<lambda>i. bin_yerr (bin_members ?d i e)) ?occ"
      by auto
    have le: "length e = length ?d" using e(1) assms(4) ld by simp
    have "bin_yerr (bin_members ?d i e) \<noteq> None" if "i \<in> set ?d" for i
      using that bin_members_empty_iff [OF le, of i] by (intro bin_yerr_defined) simp
    then have "None \<notin> set e'" unfolding e(2) by (intro None_notin_map) (simp del: upt_Suc)
    then show "length e' = length (map (\<lambda>i. np_mean (bin_members ?d i x)) ?occ) \<and> None \<notin> set e'"
      unfolding e(2) by simp
  qed
  show ?thesis
    using r nx ny ne by (intro exI conjI) (assumption | rule refl | simp del: upt_Suc)+
qed

theorem bindata_drops_empty_bins_witness:
  "\<exists>bx by be. bindata [0, 1, 5] [1, 2, 3] 2 (Some [1, 1, 1]) = Inr (bx, by, be)
     \<and> length bx = 2 \<and> length by = length bx \<and> None \<notin> set bx \<and> None \<notin> set by
     \<and> (\<forall>e. be = Some e \<longrightarrow> length e = length bx \<and> None \<notin> set e)"
proof -
  have m: "Min (set [0, 1, 5 :: real]) = 0" "Max (set [0, 1, 5 :: real]) = 5" by simp_all
  have h: "[0, 1, 5] \<noteq> ([] :: real list)"
    "np_arange (Min (set [0, 1, 5])) (Max (set [0, 1, 5])) 2 = Inr [Fin 0, Fin 2, Fin 4]"
    "length [1, 2, 3 :: real] = length [0, 1, 5 :: real]"
    "\<forall>e. Some [1, 1, 1 :: real] = Some e \<longrightarrow> length e = length [0, 1, 5 :: real]"
    by (simp_all add: m arange_0_5_2)
  have d: "digitize [0, 1, 5] [Fin 0, Fin 2, Fin 4] = [1, 1, 3]" by (simp add: digitize_def)
  have occ: "filter (\<lambda>i. i \<in> set [1, 1, 3 :: nat]) [1..<length [Fin 0, Fin 2, Fin 4] + 1] = [1, 3]"
    by (simp add: eval_nat_numeral)
  from bindata_drops_empty_bins [OF h] show ?thesis unfolding d occ by auto
qed

section \<open>Every sample in one bin\<close>

lemma indicator_sum_distinct:
  "distinct is \<Longrightarrow> sum_list (map (\<lambda>i. if a = i then 1 else 0) is) = (if a \<in> set is then 1 else (0::nat))"
  by (induction "is") auto

lemma bin_counts_sum:
  assumes "distinct is" and "set d \<subseteq> set is"
  shows "sum_list (map (\<lambda>i. length (filter (\<lambda>k. k = i) d)) is) = length d"
  using assms(2)
proof (induction d)
  case Nil
  then show ?case by simp
next
  case (Cons a d)
  have "sum_list (map (\<lambda>i. length (filter (\<lambda>k. k = i) (a # d))) is)
      = sum_list (map (\<lambda>i. (if a = i then 1 else 0) + length (filter (\<lambda>k. k = i) d)) is)"
    by (intro arg_cong [where f = sum_list] map_cong) auto
  also have "\<dots> = sum_list (map (\<lambda>i. if a = i then 1 else 0) is)
      + sum_list (map (\<lambda>i. length (filter (\<lambda>k. k = i) d)) is)"
    by (simp add: sum_list_addf)
  also have "\<dots> = 1 + length d"
    using Cons assms(1) by (simp add: indicator_sum_distinct)
  finally show ?case by simp
qed

lemma fin_eqI: "rd x = y \<Longrightarrow> \<bar>y\<bar> < 2 ^ 1024 \<Longrightarrow> fin x = Fin y"
  by (auto simp add: fin_def abs_less_iff)

lemma fin_52:
  assumes "x * 2 ^ 52 \<in> \<int>" and "\<bar>x\<bar> < 2"
  shows "fin x = Fin x"
proof -
  have "\<bar>x\<bar> * 2 ^ 52 < 2 * 2 ^ 52" using assms(2) by (intro mult_strict_right_mono) simp_all
  then have "\<bar>x\<bar> * 2 ^ 52 < 2 ^ 53" by simp
  then have "rd x = x" using assms(1) by (intro rd_scaled [of x 52]) simp_all
  moreover have "\<bar>x\<bar> < 2 ^ 1024"
  proof -
    have "(2 :: real) ^ 1 \<le> 2 ^ 1024" by (intro power_increasing) simp_all
    with assms(2) show ?thesis by simp
  qed
  ultimately show ?thesis by (rule fin_eqI)
qed

text \<open>
  The edges for \<open>x = [1, 1.3]\<close> and the width 0.1, that is, for the doubles nearest to
  these decimal numbers: \<open>5854679515581645 / 2^52\<close> and \<open>3602879701896397 / 2^55\<close>. The
  quotient \<open>(1.3 - 1) / 0.1\<close> rounds to the double above 3, and \<open>1 + 0.1\<close> rounds to the
  double nearest to 1.1.
\<close>

lemma quotient_above_3:
  "fin (1351079888211149 / 2 ^ 52 / (3602879701896397 / 2 ^ 55)) = Fin (6755399441055745 / 2 ^ 51)"
proof (rule fin_eqI)
  show "rd (1351079888211149 / 2 ^ 52 / (3602879701896397 / 2 ^ 55)) = 6755399441055745 / 2 ^ 51"
    using rd_nearest [of "- 51" "1351079888211149 / 2 ^ 52 / (3602879701896397 / 2 ^ 55)"
        6755399441055745] by simp
  show "\<bar>6755399441055745 / 2 ^ 51 :: real\<bar> < 2 ^ 1024" by simp
qed

lemma second_edge:
  "fin (1 + 3602879701896397 / 2 ^ 55) = Fin (2476979795053773 / 2 ^ 51)"
proof (rule fin_eqI)
  show "rd (1 + 3602879701896397 / 2 ^ 55) = 2476979795053773 / 2 ^ 51"
    using rd_nearest [of "- 52" "1 + 3602879701896397 / 2 ^ 55" 4953959590107546] by simp
  show "\<bar>2476979795053773 / 2 ^ 51 :: real\<bar> < 2 ^ 1024" by simp
qed

lemma arange_1_13_01:
  "np_arange 1 (5854679515581645 / 2 ^ 52) (3602879701896397 / 2 ^ 55)
     = Inr [Fin 1, Fin (2476979795053773 / 2 ^ 51), Fin (1351079888211149 / 2 ^ 50),
            Fin (2927339757790823 / 2 ^ 51)]"
  by (simp add: np_arange_def arange_length_def Let_def eval_nat_numeral fin_52 fin_small
      quotient_above_3 [simplified] second_edge [simplified])


text \<open>
  Claim C10 as stated fails in one point: \<open>max(x)\<close> need not be at or beyond the last edge,
  and is then not assigned to the last bin. For \<open>x = [1, 1.3]\<close> and the width 0.1
  \<open>np.arange\<close> returns four edges, the last of them the double above 1.3; the sample 1.3
  is assigned to bin 3, and bin 4, the last, stays empty.
\<close>

theorem max_sample_not_in_last_bin:
  "np_arange (Min (set [1, 5854679515581645 / 2 ^ 52])) (Max (set [1, 5854679515581645 / 2 ^ 52]))
       (3602879701896397 / 2 ^ 55)
     = Inr [Fin 1, Fin (2476979795053773 / 2 ^ 51), Fin (1351079888211149 / 2 ^ 50),
            Fin (2927339757790823 / 2 ^ 51)]
   \<and> digitize [1, 5854679515581645 / 2 ^ 52]
         [Fin 1, Fin (2476979795053773 / 2 ^ 51), Fin (1351079888211149 / 2 ^ 50),
          Fin (2927339757790823 / 2 ^ 51)]
     = [1, 3]"
proof
  have m: "Min (set [1, 5854679515581645 / 2 ^ 52 :: real]) = 1"
    "Max (set [1, 5854679515581645 / 2 ^ 52 :: real]) = 5854679515581645 / 2 ^ 52"
    by simp_all
  show "np_arange (Min (set [1, 5854679515581645 / 2 ^ 52])) (Max (set [1, 5854679515581645 / 2 ^ 52]))
       (3602879701896397 / 2 ^ 55)
     = Inr [Fin 1, Fin (2476979795053773 / 2 ^ 51), Fin (1351079888211149 / 2 ^ 50),
            Fin (2927339757790823 / 2 ^ 51)]"
    unfolding m by (rule arange_1_13_01)
  show "digitize [1, 5854679515581645 / 2 ^ 52]
         [Fin 1, Fin (2476979795053773 / 2 ^ 51), Fin (1351079888211149 / 2 ^ 50),
          Fin (2927339757790823 / 2 ^ 51)]
     = [1, 3]"
    by (simp add: digitize_def)
qed

text \<open>
  Claim C10, amended. Let \<open>x\<close> be non-empty with \<open>max(x) > min(x)\<close>, the width positive,
  and let \<open>np.arange(min(x), max(x), width)\<close> return its array of edges. Then there is at
  least one edge, every sample gets one bin index between 1 and the number of edges, a
  sample at or beyond every edge gets the last bin, and the numbers of samples in bins
  \<open>1, \<dots>, len(bins)\<close> add up to the number of samples. These are the edges, indices and
  selections \<open>bindata\<close> works with. (\<open>max(x)\<close> is in one of the bins, not always the
  last.)
\<close>

theorem bindata_every_sample_binned:
  assumes "x \<noteq> []" and "list_all is_double x" and "Min (set x) < Max (set x)" and "0 < width"
    and "np_arange (Min (set x)) (Max (set x)) width = Inr bins"
  shows "bins \<noteq> []
           \<and> (\<forall>k<length x. 1 \<le> digitize x bins ! k \<and> digitize x bins ! k \<le> length bins)
           \<and> (\<forall>k<length x. (\<forall>b\<in>set bins. dle b (Fin (x ! k)))
                  \<longrightarrow> digitize x bins ! k = length bins)
           \<and> sum_list (map (\<lambda>i. length (bin_members (digitize x bins) i x)) [1..<length bins + 1])
               = length x
           \<and> bindata x x width None
               = Inr (map (\<lambda>i. np_mean (bin_members (digitize x bins) i x))
                        (filter (\<lambda>i. i \<in> set (digitize x bins)) [1..<length bins + 1]),
                      map (\<lambda>i. np_mean (bin_members (digitize x bins) i x))
                        (filter (\<lambda>i. i \<in> set (digitize x bins)) [1..<length bins + 1]),
                      None)"
proof -
  let ?lo = "Min (set x)" and ?hi = "Max (set x)"
  have ne: "bins \<noteq> []"
    using Min_Max_double [OF assms(1,2)] assms(3,4,5) by (rule np_arange_nonempty)
  have first: "bins ! 0 = Fin ?lo" using assms(5) ne by (rule np_arange_first)
  then have lo_in: "Fin ?lo \<in> set bins" using ne by (metis length_greater_0_conv nth_mem)
  have dk: "digitize x bins ! k = length (filter (\<lambda>b. dle b (Fin (x ! k))) bins)"
    if "k < length x" for k
    using that by (simp add: digitize_def)
  have rng: "1 \<le> digitize x bins ! k \<and> digitize x bins ! k \<le> length bins" if "k < length x" for k
  proof -
    have "?lo \<le> x ! k" using that by (intro Min_le) simp_all
    then have "dle (Fin ?lo) (Fin (x ! k))" by simp
    then have "\<exists>b\<in>set bins. dle b (Fin (x ! k))" using lo_in by blast
    then have "filter (\<lambda>b. dle b (Fin (x ! k))) bins \<noteq> []"
      by (simp add: filter_empty_conv)
    then have "1 \<le> length (filter (\<lambda>b. dle b (Fin (x ! k))) bins)" by (simp add: Suc_le_eq)
    then show ?thesis using dk [OF that] by simp
  qed
  have beyond: "digitize x bins ! k = length bins"
    if "k < length x" "\<forall>b\<in>set bins. dle b (Fin (x ! k))" for k
  proof -
    have "filter (\<lambda>b. dle b (Fin (x ! k))) bins = bins" using that(2) by (intro filter_True)
    then show ?thesis using dk [OF that(1)] by simp
  qed
  have sub: "set (digitize x bins) \<subseteq> set [1..<length bins + 1]"
  proof
    fix v assume "v \<in> set (digitize x bins)"
    then obtain k where k: "k < length x" "v = digitize x bins ! k"
      by (auto simp: in_set_conv_nth digitize_def)
    then show "v \<in> set [1..<length bins + 1]" using rng [OF k(1)] by (simp del: upt_Suc)
  qed
  have "sum_list (map (\<lambda>i. length (bin_members (digitize x bins) i x)) [1..<length bins + 1])
      = sum_list (map (\<lambda>i. length (filter (\<lambda>k. k = i) (digitize x bins))) [1..<length bins + 1])"
    by (intro arg_cong [where f = sum_list] map_cong refl length_bin_members) (simp add: digitize_def)
  also have "\<dots> = length (digitize x bins)"
    using sub by (intro bin_counts_sum) simp_all
  finally have total: "sum_list (map (\<lambda>i. length (bin_members (digitize x bins) i x)) [1..<length bins + 1])
      = length x" by (simp add: digitize_def)
  have res: "bindata x x width None
               = Inr (map (\<lambda>i. np_mean (bin_members (digitize x bins) i x))
                        (filter (\<lambda>i. i \<in> set (digitize x bins)) [1..<length bins + 1]),
                      map (\<lambda>i. np_mean (bin_members (digitize x bins) i x))
                        (filter (\<lambda>i. i \<in> set (digitize x bins)) [1..<length bins + 1]),
                      None)"
    using bindata_result [OF assms(1,5), of x None] by simp
  show ?thesis
    using ne rng beyond total res by (intro conjI allI impI) blast+
qed

theorem bindata_every_sample_binned_witness:
  "digitize [0, 1, 5] [Fin 0, Fin 2, Fin 4] = [1, 1, 3]
     \<and> sum_list (map (\<lambda>i. length (bin_members (digitize [0, 1, 5] [Fin 0, Fin 2, Fin 4]) i [0, 1, 5 :: real]))
                  [1..<length [Fin 0, Fin 2, Fin 4] + 1]) = length [0, 1, 5 :: real]
     \<and> bindata [0, 1, 5] [0, 1, 5] 2 None = Inr ([Some (1 / 2), Some 5], [Some (1 / 2), Some 5], None)"
proof -
  have m: "Min (set [0, 1, 5 :: real]) = 0" "Max (set [0, 1, 5 :: real]) = 5" by simp_all
  have h: "[0, 1, 5] \<noteq> ([] :: real list)" "list_all is_double [0, 1, 5]"
    "Min (set [0, 1, 5 :: real]) < Max (set [0, 1, 5])" "(0 :: real) < 2"
    "np_arange (Min (set [0, 1, 5])) (Max (set [0, 1, 5])) 2 = Inr [Fin 0, Fin 2, Fin 4]"
    by (simp_all add: is_double_small m arange_0_5_2)
  have d: "digitize [0, 1, 5] [Fin 0, Fin 2, Fin 4] = [1, 1, 3]" by (simp add: digitize_def)
  have occ: "filter (\<lambda>i. i \<in> set [1, 1, 3 :: nat]) [1..<length [Fin 0, Fin 2, Fin 4] + 1] = [1, 3]"
    by (simp add: eval_nat_numeral)
  from bindata_every_sample_binned [OF h] show ?thesis
    unfolding d occ by (simp add: bin_members_def np_mean_def fdiv_def)
qed

section \<open>BinWidthOptimizer\<close>

lemma for_loop_stops:
  assumes "for_loop xs body s = Inr s1" and "body i s1 = Inl e"
  shows "for_loop (xs @ i # ys) body s = Inl e"
  using assms by (simp add: for_loop_append)

lemma for_loop_fails_later:
  assumes "for_loop xs body s = Inl e"
  shows "for_loop (xs @ ys) body s = Inl e"
  using assms by (simp add: for_loop_append)

lemma sweep_body_fit_error:
  assumes "fit_outcome curve_fit phasegood phatgood phot photerr params npix (bintry ! i) = Inl e"
  shows "sweep_body curve_fit phasegood phatgood phot photerr params npix bintry i st = Inl e"
proof (cases "sweep_fit_input phasegood phatgood phot photerr npix (bintry ! i)")
  case (Inl e1)
  then show ?thesis using assms by (simp add: fit_outcome_def sweep_body_def)
next
  case (Inr d)
  then have "curve_fit (xphat d) (binphotnorm d) params (binphoterrnorm d) = Inl e"
    using assms by (simp add: fit_outcome_def)
  then show ?thesis using Inr by (simp add: sweep_body_def)
qed

lemma sweep_fails:
  assumes "i < length bintry"
    and "fit_outcome curve_fit phasegood phatgood phot photerr params npix (bintry ! i) = Inl e"
  shows "\<exists>e'. sweep curve_fit phasegood phatgood phot photerr params npix bintry = Inl e'
           \<and> (\<forall>st. for_loop [0..<i]
                      (sweep_body curve_fit phasegood phatgood phot photerr params npix bintry)
                      \<lparr>chibest = 10 ^ 300, binbest = None,
                       chisqarray = replicate (length bintry) (Some 0)\<rparr> = Inr st
                    \<longrightarrow> e' = e)"
proof -
  let ?body = "sweep_body curve_fit phasegood phatgood phot photerr params npix bintry"
  let ?init = "\<lparr>chibest = 10 ^ 300, binbest = None,
                 chisqarray = replicate (length bintry) (Some 0)\<rparr>"
  have split: "[0..<length bintry] = [0..<i] @ i # [Suc i..<length bintry]"
  proof -
    obtain k where k: "length bintry = i + k" using assms(1) by (metis less_imp_add_positive)
    have "[0..<i + k] = [0..<i] @ [i..<i + k]" by (rule upt_add_eq_append) simp
    moreover have "[i..<i + k] = i # [Suc i..<i + k]" using assms(1) k by (intro upt_conv_Cons) simp
    ultimately show ?thesis using k by simp
  qed
  show ?thesis
  proof (cases "for_loop [0..<i] ?body ?init")
    case (Inl e1)
    then have "for_loop [0..<length bintry] ?body ?init = Inl e1"
      unfolding split by (rule for_loop_fails_later)
    then show ?thesis using Inl by (simp add: sweep_def)
  next
    case (Inr st)
    have "?body i st = Inl e" using assms(2) by (rule sweep_body_fit_error)
    with Inr have "for_loop [0..<length bintry] ?body ?init = Inl e"
      unfolding split by (rule for_loop_stops)
    then show ?thesis using Inr by (simp add: sweep_def)
  qed
qed

lemma bindata_two_bins:
  assumes "\<forall>e. yerr = Some e \<longrightarrow> length e = 2"
  shows "bindata [0, 1] [a, b] (1 / 2) yerr
           = Inr ([Some 0, Some 1], [Some a, Some b],
                  map_option (\<lambda>e. [bin_yerr [e ! 0], bin_yerr [e ! 1]]) yerr)"
proof -
  have ar: "np_arange 0 1 (1 / 2) = Inr [Fin 0, Fin (1 / 2)]"
    by (simp add: np_arange_def arange_length_def fin_small Let_def eval_nat_numeral)
  have d: "digitize [0, 1] [Fin 0, Fin (1 / 2)] = [1, 2]" by (simp add: digitize_def)
  have occ: "filter (\<lambda>i. i \<in> set [1, 2 :: nat]) [1..<length [Fin 0, Fin (1 / 2)] + 1] = [1, 2]"
    by (simp add: eval_nat_numeral)
  have m: "Min (set [0, 1 :: real]) = 0" "Max (set [0, 1 :: real]) = 1" by simp_all
  have h: "[0, 1] \<noteq> ([] :: real list)"
    "np_arange (Min (set [0, 1])) (Max (set [0, 1])) (1 / 2) = Inr [Fin 0, Fin (1 / 2)]"
    "length [a, b] = length [0, 1 :: real]"
    "\<forall>e. yerr = Some e \<longrightarrow> length e = length [0, 1 :: real]"
    using assms by (simp_all add: m ar)
  note r = bindata_result [OF h]
  have me: "map_option (\<lambda>e. map (\<lambda>i. bin_yerr (bin_members [1, 2] i e)) [1, 2]) yerr
      = map_option (\<lambda>e. [bin_yerr [e ! 0], bin_yerr [e ! 1]]) yerr"
  proof (cases yerr)
    case None then show ?thesis by simp
  next
    case (Some e)
    then have "length e = 2" using assms by simp
    then obtain e0 e1 where "e = [e0, e1]"
      by (cases e; cases "tl e") (auto simp: eval_nat_numeral)
    then show ?thesis using Some by (simp add: bin_members_def)
  qed
  show ?thesis
    unfolding r d occ me [symmetric]
    by (simp add: bin_members_def np_mean_def fdiv_def)
qed

lemma bindata_unit_width:
  "bindata [0, 1] [a, b] 1 None = Inr ([Some (1 / 2)], [Some ((a + b) / 2)], None)"
proof -
  have h: "[0, 1] \<noteq> ([] :: real list)" "Min (set [0, 1 :: real]) < Max (set [0, 1])"
    "Max (set [0, 1 :: real]) - Min (set [0, 1]) \<le> 1"
    "length [a, b] = length [0, 1 :: real]"
    "\<forall>e. None = Some e \<longrightarrow> length e = length [0, 1 :: real]"
    "list_all is_double [0, 1]" "is_double 1"
    by (simp_all add: is_double_small)
  from bindata_one_bin [OF h] show ?thesis by simp
qed

lemma bindata_unit_width_err:
  "bindata [0, 1] [a, b] 1 (Some [c, d])
     = Inr ([Some (1 / 2)], [Some ((a + b) / 2)], Some [bin_yerr [c, d]])"
proof -
  have h: "[0, 1] \<noteq> ([] :: real list)" "Min (set [0, 1 :: real]) < Max (set [0, 1])"
    "Max (set [0, 1 :: real]) - Min (set [0, 1]) \<le> 1"
    "length [a, b] = length [0, 1 :: real]"
    "\<forall>e. Some [c, d] = Some e \<longrightarrow> length e = length [0, 1 :: real]"
    "list_all is_double [0, 1]" "is_double 1"
    by (simp_all add: is_double_small)
  from bindata_one_bin [OF h] show ?thesis by simp
qed

lemma fit_fails_at_half_width:
  "fit_outcome fails_on_two_bins [0, 1]
     [[1, 1, 1, 1, 1, 1, 1, 1, 1], [2, 2, 2, 2, 2, 2, 2, 2, 2]] [1, 3] [1, 1] p0 9 (1 / 2)
   = Inl RuntimeError"
  by (simp add: fit_outcome_def fails_on_two_bins_def sweep_fit_input_def bin_pixel_def column_def
      column_stack_def bindata_two_bins eval_nat_numeral for_loop_append)

lemma fit_converges_at_unit_width:
  "fit_outcome fails_on_two_bins [0, 1]
     [[1, 1, 1, 1, 1, 1, 1, 1, 1], [2, 2, 2, 2, 2, 2, 2, 2, 2]] [1, 3] [1, 1] p0 9 1
   = Inr p0"
  by (simp add: fit_outcome_def fails_on_two_bins_def sweep_fit_input_def bin_pixel_def column_def
      column_stack_def bindata_unit_width bindata_unit_width_err eval_nat_numeral for_loop_append)

text \<open>
  Claim C2, amended. A failed fit is not skipped. When the solver (or the binning before
  it) raises for some candidate width, the sweep as a whole ends with an exception and
  produces no best width; when the iterations for all earlier widths completed, the
  exception is the one of that width, and no later width is tried.
\<close>

theorem sweep_fit_failure_is_fatal:
  assumes "i < length bintry"
    and "fit_outcome curve_fit phasegood phatgood phot photerr params npix (bintry ! i) = Inl e"
  shows "\<exists>e'. sweep curve_fit phasegood phatgood phot photerr params npix bintry = Inl e'
           \<and> (\<forall>st. for_loop [0..<i]
                      (sweep_body curve_fit phasegood phatgood phot photerr params npix bintry)
                      \<lparr>chibest = 10 ^ 300, binbest = None,
                       chisqarray = replicate (length bintry) (Some 0)\<rparr> = Inr st
                    \<longrightarrow> e' = e)"
  using assms by (rule sweep_fails)

theorem sweep_fit_failure_is_fatal_witness:
  "sweep fails_on_two_bins [0, 1]
     [[1, 1, 1, 1, 1, 1, 1, 1, 1], [2, 2, 2, 2, 2, 2, 2, 2, 2]] [1, 3] [1, 1]
     [0, 0, 0, 0, 0, 0, 0, 0, 0, 0, 0, 0, 0, 0, 0, 0, 0, 0] 9 [1 / 2, 1, 2]
   = Inl RuntimeError"
proof -
  have h: "0 < length [1 / 2, 1, 2 :: real]" by simp
  have f: "fit_outcome fails_on_two_bins [0, 1]
     [[1, 1, 1, 1, 1, 1, 1, 1, 1], [2, 2, 2, 2, 2, 2, 2, 2, 2]] [1, 3] [1, 1]
     [0, 0, 0, 0, 0, 0, 0, 0, 0, 0, 0, 0, 0, 0, 0, 0, 0, 0] 9 ([1 / 2, 1, 2] ! 0) = Inl RuntimeError"
    by (simp add: fit_fails_at_half_width)
  from sweep_fit_failure_is_fatal [OF h f] show ?thesis by auto
qed

text \<open>
  Claim C2 as stated fails. Two good frames at phases 0 and 1, nine pixels, candidate
  widths 1/2 and 1, and a solver that does not converge on the two bins of width 1/2 but
  converges on the single bin of width 1: the sweep does not go on to width 1, it ends
  with the solver's \<open>RuntimeError\<close>.
\<close>

theorem sweep_stops_at_first_failed_fit:
  "fit_outcome fails_on_two_bins [0, 1]
     [[1, 1, 1, 1, 1, 1, 1, 1, 1], [2, 2, 2, 2, 2, 2, 2, 2, 2]] [1, 3] [1, 1]
     [0, 0, 0, 0, 0, 0, 0, 0, 0, 0, 0, 0, 0, 0, 0, 0, 0, 0] 9 1
   = Inr [0, 0, 0, 0, 0, 0, 0, 0, 0, 0, 0, 0, 0, 0, 0, 0, 0, 0]
   \<and> sweep fails_on_two_bins [0, 1]
     [[1, 1, 1, 1, 1, 1, 1, 1, 1], [2, 2, 2, 2, 2, 2, 2, 2, 2]] [1, 3] [1, 1]
     [0, 0, 0, 0, 0, 0, 0, 0, 0, 0, 0, 0, 0, 0, 0, 0, 0, 0] 9 [1 / 2, 1]
   = Inl RuntimeError"
proof
  show "fit_outcome fails_on_two_bins [0, 1]
     [[1, 1, 1, 1, 1, 1, 1, 1, 1], [2, 2, 2, 2, 2, 2, 2, 2, 2]] [1, 3] [1, 1]
     [0, 0, 0, 0, 0, 0, 0, 0, 0, 0, 0, 0, 0, 0, 0, 0, 0, 0] 9 1
   = Inr [0, 0, 0, 0, 0, 0, 0, 0, 0, 0, 0, 0, 0, 0, 0, 0, 0, 0]"
    by (rule fit_converges_at_unit_width)
  have h: "0 < length [1 / 2, 1 :: real]" by simp
  have f: "fit_outcome fails_on_two_bins [0, 1]
     [[1, 1, 1, 1, 1, 1, 1, 1, 1], [2, 2, 2, 2, 2, 2, 2, 2, 2]] [1, 3] [1, 1]
     [0, 0, 0, 0, 0, 0, 0, 0, 0, 0, 0, 0, 0, 0, 0, 0, 0, 0] 9 ([1 / 2, 1] ! 0) = Inl RuntimeError"
    by (simp add: fit_fails_at_half_width)
  from sweep_fails [OF h f] show "sweep fails_on_two_bins [0, 1]
     [[1, 1, 1, 1, 1, 1, 1, 1, 1], [2, 2, 2, 2, 2, 2, 2, 2, 2]] [1, 3] [1, 1]
     [0, 0, 0, 0, 0, 0, 0, 0, 0, 0, 0, 0, 0, 0, 0, 0, 0, 0] 9 [1 / 2, 1]
   = Inl RuntimeError" by auto
qed

end
